theory Spec2Isabelle
  imports Main "HOL-Library.Sublist"
begin

section \<open>Python strings\<close>

text \<open>
  A Python \<open>str\<close> is modelled as a \<open>string\<close> (a list of \<open>char\<close>), one \<open>char\<close> per code
  point, for texts whose code points lie in 0..255. The character classes below are those of
  \<open>str.isspace\<close> (used by \<open>strip\<close>, \<open>rstrip\<close> and the regular expression class \<open>\s\<close>) and of
  the regular expression class \<open>\w\<close> on that range.
\<close>

definition nl :: char where
  "nl = CHR 0x0A"

definition fence :: string where
  "fence = [CHR 0x60, CHR 0x60, CHR 0x60]"

definition is_space :: "char \<Rightarrow> bool" where
  "is_space c = (let n = of_char c :: nat in
     (9 \<le> n \<and> n \<le> 13) \<or> (28 \<le> n \<and> n \<le> 32) \<or> n = 133 \<or> n = 160)"

definition is_word :: "char \<Rightarrow> bool" where
  "is_word c = (let n = of_char c :: nat in
     (48 \<le> n \<and> n \<le> 57) \<or> (65 \<le> n \<and> n \<le> 90) \<or> n = 95 \<or> (97 \<le> n \<and> n \<le> 122)
     \<or> n = 170 \<or> n = 178 \<or> n = 179 \<or> n = 181 \<or> n = 185 \<or> n = 186
     \<or> (188 \<le> n \<and> n \<le> 190) \<or> (192 \<le> n \<and> n \<le> 214) \<or> (216 \<le> n \<and> n \<le> 246)
     \<or> 248 \<le> n)"

text \<open>\<open>s.lstrip()\<close>, \<open>s.rstrip()\<close> and \<open>s.strip()\<close>.\<close>

definition lstrip :: "string \<Rightarrow> string" where
  "lstrip s = dropWhile is_space s"

definition rstrip :: "string \<Rightarrow> string" where
  "rstrip s = rev (dropWhile is_space (rev s))"

definition strip :: "string \<Rightarrow> string" where
  "strip s = rstrip (lstrip s)"

text \<open>\<open>s.split('\n')\<close>: never empty, one more element than there are newlines.\<close>

fun split_nl :: "string \<Rightarrow> string list" where
  "split_nl [] = [[]]"
| "split_nl (c # cs) =
     (if c = nl then [] # split_nl cs
      else (case split_nl cs of [] \<Rightarrow> [[c]] | l # ls \<Rightarrow> (c # l) # ls))"

text \<open>\<open>'\n'.join(ls)\<close>.\<close>

fun join_nl :: "string list \<Rightarrow> string" where
  "join_nl [] = []"
| "join_nl [l] = l"
| "join_nl (l # ls) = l @ nl # join_nl ls"

section \<open>Regular expressions of the source\<close>

text \<open>
  Each pattern of the source is modelled by the scanner Python's \<open>re\<close> runs for it: matches
  are searched from left to right, a match is tried at every position, and after a match the
  scan goes on behind it (the matches do not overlap). No pattern here matches the empty string.
\<close>

subsection \<open>The delimiter \<open>=== FILENAME: (.+?) ===\<close>\<close>

text \<open>
  \<open>match_name\<close> is \<open>(.+?) ===\<close> at the start of its argument: the shortest non-empty run of
  characters other than newline that is followed by \<open>" ==="\<close>. It returns the group and the
  text behind the match.
\<close>

fun match_name :: "string \<Rightarrow> (string \<times> string) option" where
  "match_name [] = None"
| "match_name (c # cs) =
     (if c = nl then None
      else if prefix '' ==='' cs then Some ([c], drop 4 cs)
      else (case match_name cs of None \<Rightarrow> None | Some (n, r) \<Rightarrow> Some (c # n, r)))"

definition match_delim :: "string \<Rightarrow> (string \<times> string) option" where
  "match_delim s = (if prefix ''=== FILENAME: '' s then match_name (drop 14 s) else None)"

lemma match_name_shorter: "match_name s = Some (n, r) \<Longrightarrow> length r < length s"
  by (induction s arbitrary: n) (auto split: if_splits option.splits)

lemma match_delim_shorter: "match_delim s = Some (n, r) \<Longrightarrow> length r < length s"
  by (auto simp: match_delim_def split: if_splits dest!: match_name_shorter)

text \<open>\<open>re.findall(file_pattern, response)\<close>: the groups of the matches, in order.\<close>

function re_findall_filename :: "string \<Rightarrow> string list" where
  "re_findall_filename [] = []"
| "re_findall_filename (c # cs) =
     (case match_delim (c # cs) of
        Some (n, r) \<Rightarrow> n # re_findall_filename r
      | None \<Rightarrow> re_findall_filename cs)"
  by pat_completeness auto
termination
  by (relation "measure length") (auto dest: match_delim_shorter)

text \<open>
  \<open>re.split(file_pattern, response)\<close>: the text before the first match, then for every match
  its group and the text up to the next match (or to the end).
\<close>

function re_split_filename :: "string \<Rightarrow> string list" where
  "re_split_filename [] = [[]]"
| "re_split_filename (c # cs) =
     (case match_delim (c # cs) of
        Some (n, r) \<Rightarrow> [] # n # re_split_filename r
      | None \<Rightarrow> (case re_split_filename cs of [] \<Rightarrow> [[c]] | seg # segs \<Rightarrow> (c # seg) # segs))"
  by pat_completeness auto
termination
  by (relation "measure length") (auto dest: match_delim_shorter)

subsection \<open>Code fences\<close>

text \<open>\<open>re.sub(r'```', '', s)\<close>.\<close>

function sub_fence :: "string \<Rightarrow> string" where
  "sub_fence [] = []"
| "sub_fence (c # cs) =
     (if prefix fence (c # cs) then sub_fence (drop 3 (c # cs)) else c # sub_fence cs)"
  by pat_completeness auto
termination
  by (relation "measure length") auto

lemma dropWhile_Cons_shorter: "dropWhile P xs = d # r \<Longrightarrow> length r < length xs"
  using length_dropWhile_le [of P xs] by simp

text \<open>
  \<open>re.sub(r'```\w*\n', '', s)\<close>: behind the fence the greedy \<open>\w*\<close> takes every word
  character; the match needs a newline right there (a shorter \<open>\w*\<close> would be followed by a
  word character, never by a newline).
\<close>

function sub_fence_tag_nl :: "string \<Rightarrow> string" where
  "sub_fence_tag_nl [] = []"
| "sub_fence_tag_nl (c # cs) =
     (if prefix fence (c # cs) then
        (case dropWhile is_word (drop 3 (c # cs)) of
           [] \<Rightarrow> c # sub_fence_tag_nl cs
         | d # r \<Rightarrow> if d = nl then sub_fence_tag_nl r else c # sub_fence_tag_nl cs)
      else c # sub_fence_tag_nl cs)"
  by pat_completeness auto
termination
  by (relation "measure length") (auto dest!: dropWhile_Cons_shorter)

text \<open>
  \<open>re.sub(r'```\w*\n?', '', s)\<close>: as before, with the newline optional (taken when present).
\<close>

function sub_fence_tag_optnl :: "string \<Rightarrow> string" where
  "sub_fence_tag_optnl [] = []"
| "sub_fence_tag_optnl (c # cs) =
     (if prefix fence (c # cs) then
        (case dropWhile is_word (drop 3 (c # cs)) of
           [] \<Rightarrow> []
         | d # r \<Rightarrow> if d = nl then sub_fence_tag_optnl r else sub_fence_tag_optnl (d # r))
      else c # sub_fence_tag_optnl cs)"
  by pat_completeness auto
termination
  by (relation "measure length") (auto dest!: dropWhile_Cons_shorter)

text \<open>
  The first fence in a text: the text before it and the text behind it. This is the lazy
  \<open>.*?```\<close> with DOTALL (the dot matches the newline too).
\<close>

fun find_fence :: "string \<Rightarrow> (string \<times> string) option" where
  "find_fence [] = None"
| "find_fence (c # cs) =
     (if prefix fence (c # cs) then Some ([], drop 3 (c # cs))
      else (case find_fence cs of None \<Rightarrow> None | Some (b, r) \<Rightarrow> Some (c # b, r)))"

lemma find_fence_shorter: "find_fence s = Some (b, r) \<Longrightarrow> length r < length s"
  by (induction s arbitrary: b) (auto simp: fence_def split: if_splits option.splits)

text \<open>\<open>re.sub(r'```.*?```', '', s, flags=re.DOTALL)\<close>.\<close>

function sub_fenced_blocks :: "string \<Rightarrow> string" where
  "sub_fenced_blocks [] = []"
| "sub_fenced_blocks (c # cs) =
     (if prefix fence (c # cs) then
        (case find_fence (drop 3 (c # cs)) of
           Some (b, r) \<Rightarrow> sub_fenced_blocks r
         | None \<Rightarrow> c # sub_fenced_blocks cs)
      else c # sub_fenced_blocks cs)"
  by pat_completeness auto
termination
  by (relation "measure length") (auto dest!: find_fence_shorter)

text \<open>
  \<open>re.findall(r'```\w*\n(.*?)```', s, re.DOTALL)\<close>: an opening fence, its tag, a newline,
  and the body up to the next fence; the bodies in order.
\<close>

function re_findall_code_blocks :: "string \<Rightarrow> string list" where
  "re_findall_code_blocks [] = []"
| "re_findall_code_blocks (c # cs) =
     (if prefix fence (c # cs) then
        (case dropWhile is_word (drop 3 (c # cs)) of
           [] \<Rightarrow> re_findall_code_blocks cs
         | d # r \<Rightarrow>
             if d = nl then
               (case find_fence r of
                  Some (b, r') \<Rightarrow> b # re_findall_code_blocks r'
                | None \<Rightarrow> re_findall_code_blocks cs)
             else re_findall_code_blocks cs)
      else re_findall_code_blocks cs)"
  by pat_completeness auto
termination
  by (relation "measure length") (auto dest!: find_fence_shorter dropWhile_Cons_shorter)

section \<open>Exceptions\<close>

text \<open>
  A raised exception is a value: its class (a class stands for its subclasses too) and its
  message, which is what \<open>str(e)\<close> returns. The exceptions of the model are those of class
  \<open>Exception\<close>, the ones \<open>except Exception\<close> catches. An operation that can raise returns
  \<open>py_error + 'a\<close>, with \<open>Inl\<close> for the exception.
\<close>

datatype exc_class =
  IndexError | KeyError | SyntaxError | RecursionError | OSError | OtherException

datatype py_error = Raise exc_class string


fun exc_kind :: "py_error \<Rightarrow> exc_class" where
  "exc_kind (Raise k msg) = k"

text \<open>\<open>xs[i]\<close> for an index \<open>i \<ge> 0\<close>.\<close>

definition get :: "'a list \<Rightarrow> nat \<Rightarrow> py_error + 'a" where
  "get xs i = (if i < length xs then Inr (xs ! i) else Inl (Raise IndexError ''list index out of range''))"

section \<open>File records\<close>

datatype kind = Documentation | Code

record file_record =
  filename :: string
  content :: string
  type :: kind

section \<open>script\_generator.py\<close>

text \<open>\<open>ScriptGenerator.clean_code_content\<close>.\<close>

definition clean_code_content :: "string \<Rightarrow> string" where
  "clean_code_content content0 =
     (let content1 = sub_fence_tag_nl content0;
          content2 = sub_fence content1;
          lines = split_nl content2;
          cleaned_lines = map rstrip lines
      in strip (join_nl cleaned_lines))"

text \<open>
  The loop over the pairs of \<open>parts\<close>, which both parsers have:
  \<^verbatim>\<open>for i in range(1, len(parts), 2): if i + 1 < len(parts): ...\<close>, here from index \<open>i\<close> on.
  \<open>clean\<close> is the cleaner the parser applies to the stripped content.
\<close>

function file_pairs :: "(string \<Rightarrow> string) \<Rightarrow> string list \<Rightarrow> nat \<Rightarrow> py_error + file_record list" where
  "file_pairs clean parts i =
     (if i < length parts then
        (if i + 1 < length parts then
           (case get parts i of
              Inl e \<Rightarrow> Inl e
            | Inr f \<Rightarrow>
               (case get parts (i + 1) of
                  Inl e \<Rightarrow> Inl e
                | Inr c \<Rightarrow>
                   (case file_pairs clean parts (i + 2) of
                      Inl e \<Rightarrow> Inl e
                    | Inr rest \<Rightarrow>
                        Inr (\<lparr>filename = strip f, content = clean (strip c), type = Code\<rparr> # rest))))
         else file_pairs clean parts (i + 2))
      else Inr [])"
  by pat_completeness auto
termination
  by (relation "measure (\<lambda>(clean, parts, i). length parts - i)") auto

declare file_pairs.simps [simp del]

text \<open>\<open>ScriptGenerator.parse_multi_file_response\<close>.\<close>

definition parse_multi_file_response :: "string \<Rightarrow> string \<Rightarrow> py_error + file_record list" where
  "parse_multi_file_response response language =
     (let file_matches = re_findall_filename response in
      if file_matches \<noteq> [] then
        (let parts = re_split_filename response in
         case get parts 0 of
           Inl e \<Rightarrow> Inl e
         | Inr p0 \<Rightarrow>
            (let files0 =
               (if strip p0 \<noteq> [] then
                  [\<lparr>filename = ''README.md'', content = strip p0, type = Documentation\<rparr>]
                else [])
             in case file_pairs clean_code_content parts 1 of
                  Inl e \<Rightarrow> Inl e
                | Inr fs \<Rightarrow> Inr (files0 @ fs)))
      else
        (let content = clean_code_content response;
             extension = (if language = ''python'' then ''py'' else ''ts'')
         in Inr [\<lparr>filename = ''generated_script.'' @ extension, content = content, type = Code\<rparr>]))"

section \<open>code\_refactor.py\<close>

text \<open>\<open>CodeRefactorer.extract_explanation\<close>.\<close>

definition extract_explanation :: "string \<Rightarrow> string" where
  "extract_explanation text0 =
     (let explanation = strip (sub_fenced_blocks text0)
      in if length explanation > 50
         then ''# Refactoring Notes'' @ [nl, nl] @ explanation
         else [])"

text \<open>
  \<open>max(code_blocks, key=len)\<close> on a non-empty list, as Python computes it: the first element
  is the candidate, and a later one replaces it only when it is strictly longer.
\<close>

fun max_key_len :: "string \<Rightarrow> string list \<Rightarrow> string" where
  "max_key_len best [] = best"
| "max_key_len best (b # bs) = max_key_len (if length best < length b then b else best) bs"

text \<open>\<open>CodeRefactorer.separate_explanation_and_code\<close>.\<close>

definition separate_explanation_and_code :: "string \<Rightarrow> string \<times> string" where
  "separate_explanation_and_code response =
     (case re_findall_code_blocks response of
        b # bs \<Rightarrow>
          (let code = strip (max_key_len b bs);
               explanation = strip (sub_fenced_blocks response)
           in (explanation, code))
      | [] \<Rightarrow> ([], strip response))"

text \<open>
  The loop of \<open>clean_and_validate_code\<close> over the lines, with \<open>blank_count\<close> as its state.
\<close>

fun collapse_blank :: "nat \<Rightarrow> string list \<Rightarrow> string list" where
  "collapse_blank blank_count [] = []"
| "collapse_blank blank_count (line # lines) =
     (if strip line = [] then
        (if blank_count + 1 \<le> 2 then [] # collapse_blank (blank_count + 1) lines
         else collapse_blank (blank_count + 1) lines)
      else rstrip line # collapse_blank 0 lines)"

text \<open>\<^verbatim>\<open>while cleaned_lines and cleaned_lines[-1] == '': cleaned_lines.pop()\<close>\<close>

function pop_trailing_blank :: "string list \<Rightarrow> string list" where
  "pop_trailing_blank ls =
     (if ls \<noteq> [] \<and> last ls = [] then pop_trailing_blank (butlast ls) else ls)"
  by pat_completeness auto
termination
  by (relation "measure length") auto

declare pop_trailing_blank.simps [simp del]

text \<open>\<open>CodeRefactorer.clean_and_validate_code\<close> (it does not use \<open>language\<close>).\<close>

definition clean_and_validate_code :: "string \<Rightarrow> string \<Rightarrow> string" where
  "clean_and_validate_code code0 language =
     (let code1 = sub_fence_tag_optnl code0;
          code2 = sub_fence code1;
          lines = split_nl code2;
          cleaned_lines = collapse_blank 0 lines
      in join_nl (pop_trailing_blank cleaned_lines))"

text \<open>\<open>CodeRefactorer.parse_refactored_response\<close>.\<close>

definition parse_refactored_response :: "string \<Rightarrow> string \<Rightarrow> py_error + file_record list" where
  "parse_refactored_response response language =
     (let file_matches = re_findall_filename response in
      if file_matches \<noteq> [] then
        (let parts = re_split_filename response in
         case get parts 0 of
           Inl e \<Rightarrow> Inl e
         | Inr p0 \<Rightarrow>
            (let files0 =
               (if strip p0 \<noteq> [] then
                  (let explanation = extract_explanation p0
                   in if explanation \<noteq> [] then
                        [\<lparr>filename = ''REFACTORING_NOTES.md'', content = explanation,
                          type = Documentation\<rparr>]
                      else [])
                else [])
             in case file_pairs (\<lambda>c. clean_and_validate_code c language) parts 1 of
                  Inl e \<Rightarrow> Inl e
                | Inr fs \<Rightarrow> Inr (files0 @ fs)))
      else
        (let (explanation, code) = separate_explanation_and_code response;
             files0 =
               (if explanation \<noteq> [] then
                  [\<lparr>filename = ''REFACTORING_NOTES.md'', content = explanation,
                    type = Documentation\<rparr>]
                else []);
             files1 =
               (if code \<noteq> [] then
                  (let extension = (if language = ''python'' then ''py'' else ''ts'')
                   in [\<lparr>filename = ''refactored_code.'' @ extension,
                        content = clean_and_validate_code code language, type = Code\<rparr>])
                else [])
         in Inr (files0 @ files1)))"

subsection \<open>The structural analysis\<close>

text \<open>\<open>sub in s\<close> for strings; \<open>s.count(sub) > 0\<close> says the same.\<close>

fun contains :: "string \<Rightarrow> string \<Rightarrow> bool" where
  "contains sub [] = (sub = [])"
| "contains sub (c # cs) = (prefix sub (c # cs) \<or> contains sub cs)"

text \<open>\<open>sep.join(xs)\<close>.\<close>

fun join_sep :: "string \<Rightarrow> string list \<Rightarrow> string" where
  "join_sep sep [] = []"
| "join_sep sep [x] = x"
| "join_sep sep (x # xs) = x @ sep @ join_sep sep xs"

subsection \<open>A pattern that is only searched\<close>

text \<open>
  For the pattern of the long functions the source only asks whether \<open>re.findall\<close> finds a
  match. That is a question about the language of the pattern: \<open>rx_after r s\<close> lists what can
  remain of \<open>s\<close> behind a match of \<open>r\<close> at its start, and \<open>rx_search r s\<close> says that \<open>r\<close>
  matches at some position of \<open>s\<close>.
\<close>

datatype char_class = Lit char | Word | Space | AnyButNl

fun in_class :: "char_class \<Rightarrow> char \<Rightarrow> bool" where
  "in_class (Lit d) c = (c = d)"
| "in_class Word c = is_word c"
| "in_class Space c = is_space c"
| "in_class AnyButNl c = (c \<noteq> nl)"

datatype rx = Eps | Cls char_class | Seq rx rx | Star rx

fun star_iter :: "(string \<Rightarrow> string list) \<Rightarrow> nat \<Rightarrow> string list \<Rightarrow> string list" where
  "star_iter f 0 ss = ss"
| "star_iter f (Suc n) ss = ss @ star_iter f n (remdups (concat (map f ss)))"

fun rx_after :: "rx \<Rightarrow> string \<Rightarrow> string list" where
  "rx_after Eps s = [s]"
| "rx_after (Cls k) s = (case s of [] \<Rightarrow> [] | c # cs \<Rightarrow> if in_class k c then [cs] else [])"
| "rx_after (Seq a b) s = remdups (concat (map (\<lambda>t. rx_after b t) (rx_after a s)))"
| "rx_after (Star a) s = star_iter (\<lambda>t. rx_after a t) (length s) [s]"

fun rx_search :: "rx \<Rightarrow> string \<Rightarrow> bool" where
  "rx_search r [] = (rx_after r [] \<noteq> [])"
| "rx_search r (c # cs) = (rx_after r (c # cs) \<noteq> [] \<or> rx_search r cs)"

fun rx_lit :: "string \<Rightarrow> rx" where
  "rx_lit [] = Eps"
| "rx_lit (c # cs) = Seq (Cls (Lit c)) (rx_lit cs)"

text \<open>\<open>r{n,}\<close>\<close>

fun rx_at_least :: "nat \<Rightarrow> rx \<Rightarrow> rx" where
  "rx_at_least 0 r = Star r"
| "rx_at_least (Suc n) r = Seq r (rx_at_least n r)"

text \<open>\<^verbatim>\<open>def \w+\(.*\):(?:\s*\n)*(?:\s{4,}.*\n){20,}\<close>\<close>

definition long_function_rx :: rx where
  "long_function_rx =
     Seq (rx_lit ''def '')
    (Seq (rx_at_least 1 (Cls Word))
    (Seq (Cls (Lit (CHR ''('')))
    (Seq (Star (Cls AnyButNl))
    (Seq (rx_lit ''):'')
    (Seq (Star (Seq (Star (Cls Space)) (Cls (Lit nl))))
         (rx_at_least 20 (Seq (rx_at_least 4 (Cls Space))
                         (Seq (Star (Cls AnyButNl)) (Cls (Lit nl))))))))))"

record analysis =
  language :: string
  lines_of_code :: nat
  complexity_indicators :: "string list"
  "imports" :: "string list"
  "functions" :: "string list"
  classes :: "string list"

text \<open>
  The nodes of a syntax tree that the analysis tells apart: an \<open>Import\<close> with the names of its
  aliases, an \<open>ImportFrom\<close> with its module (\<open>None\<close> for a relative import) and the names of its
  aliases, a \<open>FunctionDef\<close> and a \<open>ClassDef\<close> with their names, and every other node.
\<close>

datatype ast_node =
    Import "string list"
  | ImportFrom "string option" "string list"
  | FunctionDef string
  | ClassDef string
  | OtherNode

text \<open>The body of the loop over \<open>ast.walk(tree)\<close>.\<close>

fun visit :: "analysis \<Rightarrow> ast_node \<Rightarrow> analysis" where
  "visit a (Import names) = a\<lparr>imports := imports a @ names\<rparr>"
| "visit a (ImportFrom module names) =
     (case module of
        None \<Rightarrow> a
      | Some m \<Rightarrow> if m \<noteq> [] then a\<lparr>imports := imports a @ [m @ ''.'' @ join_sep '', '' names]\<rparr>
                  else a)"
| "visit a (FunctionDef name) = a\<lparr>functions := functions a @ [name]\<rparr>"
| "visit a (ClassDef name) = a\<lparr>classes := classes a @ [name]\<rparr>"
| "visit a OtherNode = a"

definition add_indicator :: "string \<Rightarrow> analysis \<Rightarrow> analysis" where
  "add_indicator flag a = a\<lparr>complexity_indicators := complexity_indicators a @ [flag]\<rparr>"

text \<open>
  \<open>CodeRefactorer.analyze_code_structure\<close>. Python's parser is not part of the repository:
  \<open>parse code\<close> stands for the nodes that \<open>ast.walk(ast.parse(code))\<close> yields, in order, or
  for the exception that \<open>ast.parse(code)\<close> raises.
\<close>

definition analyze_code_structure ::
  "(string \<Rightarrow> py_error + ast_node list) \<Rightarrow> string \<Rightarrow> string \<Rightarrow> py_error + analysis" where
  "analyze_code_structure parse code lang =
     (let analysis0 = \<lparr>language = lang, lines_of_code = length (split_nl code),
                       complexity_indicators = [], imports = [], functions = [], classes = []\<rparr>
      in case (if lang = ''python'' then
                 (case parse code of
                    Inr nodes \<Rightarrow> Inr (foldl visit analysis0 nodes)
                  | Inl e \<Rightarrow>
                      if exc_kind e = SyntaxError
                      then Inr (add_indicator ''Syntax errors present'' analysis0)
                      else Inl e)
               else Inr analysis0) of
           Inl e \<Rightarrow> Inl e
         | Inr a1 \<Rightarrow>
            (let a2 = (if lines_of_code a1 > 500
                       then add_indicator ''Large file (>500 lines)'' a1 else a1);
                 a3 = (if length (functions a2) > 20
                       then add_indicator ''Many functions (>20)'' a2 else a2);
                 a4 = (if length (classes a3) > 10
                       then add_indicator ''Many classes (>10)'' a3 else a3);
                 a5 = (if contains ''TODO'' code \<or> contains ''FIXME'' code
                       then add_indicator ''Contains TODO/FIXME comments'' a4 else a4);
                 a6 = (if contains ''except:'' code
                       then add_indicator ''Bare except clauses found'' a5 else a5);
                 a7 = (if rx_search long_function_rx code
                       then add_indicator ''Very long functions detected'' a6 else a6)
             in Inr a7))"

section \<open>The public operations\<close>


text \<open>
  The dictionary an operation returns. A key that the dictionary does not have is \<open>None\<close>.
\<close>

record result =
  success :: bool
  error :: "string option"
  original_analysis :: "analysis option"
  files :: "file_record list option"
  raw_response :: "string option"
  timestamp :: "string option"
  saved_files :: "string list option"

definition failure :: "string \<Rightarrow> string option \<Rightarrow> result" where
  "failure msg ts = \<lparr>success = False, error = Some msg, original_analysis = None, files = None,
     raw_response = None, timestamp = ts, saved_files = None\<rparr>"










section \<open>Auxiliary definitions and example inputs\<close>

text \<open>
  What the loop computes, as a function of the list behind index \<open>i\<close>: one code record per
  complete pair, nothing for a last element that has no partner.
\<close>

definition mk_code :: "(string \<Rightarrow> string) \<Rightarrow> string \<Rightarrow> string \<Rightarrow> file_record" where
  "mk_code clean f c = \<lparr>filename = strip f, content = clean (strip c), type = Code\<rparr>"

fun pairs_of :: "(string \<Rightarrow> string) \<Rightarrow> string list \<Rightarrow> file_record list" where
  "pairs_of clean (f # c # rest) = mk_code clean f c # pairs_of clean rest"
| "pairs_of clean [f] = []"
| "pairs_of clean [] = []"

text \<open>A text that contains a fence.\<close>

fun has_fence :: "string \<Rightarrow> bool" where
  "has_fence [] = False"
| "has_fence (c # cs) = (prefix fence (c # cs) \<or> has_fence cs)"

text \<open>No line of the text ends in whitespace.\<close>

definition rstripped_lines :: "string \<Rightarrow> bool" where
  "rstripped_lines s = list_all (\<lambda>l. rstrip l = l) (split_nl s)"

text \<open>The part of \<open>clean_code_content\<close> behind the two substitutions.\<close>

definition trim_lines :: "string \<Rightarrow> string" where
  "trim_lines s = strip (join_nl (map rstrip (split_nl s)))"

text \<open>
  The lists of lines the loop of \<open>clean_and_validate_code\<close> leaves unchanged when it starts
  with \<open>blank_count = n\<close>.
\<close>

fun collapsed :: "nat \<Rightarrow> string list \<Rightarrow> bool" where
  "collapsed n [] = True"
| "collapsed n (l # ls) =
     (if l = [] then n + 1 \<le> 2 \<and> collapsed (n + 1) ls
      else strip l \<noteq> [] \<and> rstrip l = l \<and> collapsed 0 ls)"

text \<open>The longest run of consecutive blank lines, \<open>cur\<close> blank lines having just been seen.\<close>

fun max_blank_run :: "nat \<Rightarrow> string list \<Rightarrow> nat" where
  "max_blank_run cur [] = cur"
| "max_blank_run cur (l # ls) =
     (if strip l = [] then max_blank_run (cur + 1) ls else max cur (max_blank_run 0 ls))"

text \<open>The part of \<open>clean_and_validate_code\<close> behind the two substitutions.\<close>

definition tidy_lines :: "string \<Rightarrow> string" where
  "tidy_lines s = join_nl (pop_trailing_blank (collapse_blank 0 (split_nl s)))"

text \<open>The number of characters of a text that are not whitespace.\<close>

definition non_space_count :: "string \<Rightarrow> nat" where
  "non_space_count s = length (filter (\<lambda>c. \<not> is_space c) s)"

text \<open>Example responses.\<close>

definition two_files :: string where
  "two_files = ''=== FILENAME: a.py ==='' @ [nl] @ ''print(1)'' @ [nl] @
               ''=== FILENAME: b.py ==='' @ [nl] @ ''print(2)'' @ [nl]"

definition dangling :: string where
  "dangling = ''=== FILENAME: a.py ===''"

definition tied_blocks :: string where
  "tied_blocks = fence @ [nl] @ ''ab'' @ fence @ '' and '' @ fence @ ''py'' @ [nl] @ ''cd'' @ fence"

definition short_notes :: string where
  "short_notes = ''hi'' @ [nl] @ ''=== FILENAME: a.py ==='' @ [nl] @ ''x''"

definition spaced_notes :: string where
  "spaced_notes = ''a'' @ replicate 49 (CHR '' '') @ ''b'' @ [nl] @ ''=== FILENAME: a.py ==='' @ [nl] @ ''x''"

definition empty_block_notes :: string where
  "empty_block_notes = ''notes '' @ fence @ ''py'' @ [nl] @ fence"

definition four_newlines :: string where
  "four_newlines = ''a'' @ [nl, nl, nl, nl] @ ''b''"

definition fenced_sample :: string where
  "fenced_sample = fence @ ''python'' @ [nl] @ ''x = 1  '' @ [nl, nl, nl, nl, nl] @ ''y'' @ [nl] @ fence @ [nl]"

text \<open>The indicators appended behind the parse, as a function of the analysis so far.\<close>

definition indicators :: "string \<Rightarrow> analysis \<Rightarrow> analysis" where
  "indicators code a1 =
     (let a2 = (if lines_of_code a1 > 500
                then add_indicator ''Large file (>500 lines)'' a1 else a1);
          a3 = (if length (functions a2) > 20
                then add_indicator ''Many functions (>20)'' a2 else a2);
          a4 = (if length (classes a3) > 10
                then add_indicator ''Many classes (>10)'' a3 else a3);
          a5 = (if contains ''TODO'' code \<or> contains ''FIXME'' code
                then add_indicator ''Contains TODO/FIXME comments'' a4 else a4);
          a6 = (if contains ''except:'' code
                then add_indicator ''Bare except clauses found'' a5 else a5);
          a7 = (if rx_search long_function_rx code
                then add_indicator ''Very long functions detected'' a6 else a6)
      in a7)"


definition no_nodes_parser :: "string \<Rightarrow> py_error + ast_node list" where
  "no_nodes_parser code = Inr []"






















section \<open>Properties of the parsers\<close>

subsection \<open>The loop over the pairs\<close>

lemma file_pairs_drop: "file_pairs clean parts i = Inr (pairs_of clean (drop i parts))"
proof (induction clean parts i rule: file_pairs.induct)
  case (1 clean parts i)
  show ?case
  proof (cases "i + 1 < length parts")
    case True
    then have d: "drop i parts = parts ! i # parts ! (i + 1) # drop (i + 2) parts"
      by (metis Cons_nth_drop_Suc Suc_eq_plus1 add_2_eq_Suc' add_lessD1)
    from True 1 show ?thesis
      by (subst file_pairs.simps) (simp add: get_def d mk_code_def)
  next
    case False
    show ?thesis
    proof (cases "i < length parts")
      case True
      with False have "drop i parts = [parts ! i]"
        by (metis Cons_nth_drop_Suc Suc_eq_plus1 drop_all linorder_not_less)
      moreover have "drop (i + 2) parts = []" using False by simp
      ultimately show ?thesis using True False 1
        by (subst file_pairs.simps) simp
    next
      case F2: False
      then show ?thesis by (subst file_pairs.simps) simp
    qed
  qed
qed

lemma pairs_of_type: "f \<in> set (pairs_of clean xs) \<Longrightarrow> type f = Code"
  by (induction clean xs rule: pairs_of.induct) (auto simp: mk_code_def)

subsection \<open>Splitting at the delimiters\<close>

lemma re_split_filename_nonempty: "re_split_filename s \<noteq> []"
  by (induction s rule: re_split_filename.induct) (auto split: option.splits list.splits)

lemma length_re_split_filename:
  "length (re_split_filename s) = 2 * length (re_findall_filename s) + 1"
  by (induction s rule: re_split_filename.induct) (auto split: option.splits list.splits)

lemma re_split_filename_Cons: "\<exists>p rest. re_split_filename s = p # rest"
  using re_split_filename_nonempty [of s] by (cases "re_split_filename s") auto

lemma pairs_of_split:
  "map filename (pairs_of clean (tl (re_split_filename s))) = map strip (re_findall_filename s)"
proof (induction s rule: re_split_filename.induct)
  case 1
  show ?case by simp
next
  case (2 c cs)
  show ?case
  proof (cases "match_delim (c # cs)")
    case None
    with 2 show ?thesis
      using re_split_filename_nonempty [of cs] by (auto split: list.splits)
  next
    case (Some a)
    obtain n r where a: "a = (n, r)" by (cases a)
    obtain p rest where pr: "re_split_filename r = p # rest"
      using re_split_filename_Cons by blast
    from 2(2) [OF Some a [symmetric]] Some a pr show ?thesis
      by (simp add: mk_code_def)
  qed
qed

lemma pairs_of_nth:
  "k < length (pairs_of clean xs) \<Longrightarrow>
   pairs_of clean xs ! k = mk_code clean (xs ! (2 * k)) (xs ! (2 * k + 1))"
proof (induction clean xs arbitrary: k rule: pairs_of.induct)
  case (1 clean f c rest)
  then show ?case by (cases k) auto
qed auto

subsection \<open>Stripping and explanations\<close>

lemma rstrip_Nil_iff: "rstrip s = [] \<longleftrightarrow> (\<forall>c\<in>set s. is_space c)"
  by (auto simp: rstrip_def)

lemma set_lstrip: "set (lstrip s) \<subseteq> set s"
  by (auto simp: lstrip_def dest: set_dropWhileD)

lemma strip_Nil_iff: "strip s = [] \<longleftrightarrow> (\<forall>c\<in>set s. is_space c)"
proof
  assume "strip s = []"
  then have a: "\<forall>c\<in>set (dropWhile is_space s). is_space c"
    by (simp add: strip_def rstrip_Nil_iff lstrip_def)
  have "dropWhile is_space s = []"
  proof (rule ccontr)
    assume "dropWhile is_space s \<noteq> []"
    then have "\<not> is_space (hd (dropWhile is_space s))" by (rule hd_dropWhile)
    moreover have "hd (dropWhile is_space s) \<in> set (dropWhile is_space s)"
      using \<open>dropWhile is_space s \<noteq> []\<close> by simp
    ultimately show False using a by blast
  qed
  then show "\<forall>c\<in>set s. is_space c" by simp
next
  assume "\<forall>c\<in>set s. is_space c"
  then have d: "dropWhile is_space s = []" by simp
  show "strip s = []"
    unfolding strip_def rstrip_def lstrip_def d by simp
qed

lemma find_fence_set: "find_fence s = Some (b, r) \<Longrightarrow> set r \<subseteq> set s"
  by (induction s arbitrary: b) (auto simp: fence_def split: if_splits option.splits dest: in_set_dropD)

lemma set_sub_fenced_blocks: "set (sub_fenced_blocks s) \<subseteq> set s"
proof (induction s rule: sub_fenced_blocks.induct)
  case 1
  show ?case by simp
next
  case (2 c cs)
  show ?case
  proof (cases "prefix fence (c # cs)")
    case False
    with 2 show ?thesis by auto
  next
    case True
    show ?thesis
    proof (cases "find_fence (drop 3 (c # cs))")
      case None
      with True 2 show ?thesis by auto
    next
      case (Some a)
      obtain b r where a: "a = (b, r)" by (cases a)
      have "set r \<subseteq> set (drop 3 (c # cs))"
        using Some a find_fence_set by blast
      also have "\<dots> \<subseteq> set (c # cs)" by (rule set_drop_subset)
      finally have "set r \<subseteq> set (c # cs)" .
      with 2(2) [OF True Some a [symmetric]] True Some a show ?thesis
        by auto
    qed
  qed
qed

lemma extract_explanation_blank: "strip p = [] \<Longrightarrow> extract_explanation p = []"
proof -
  assume "strip p = []"
  then have "\<forall>c\<in>set (sub_fenced_blocks p). is_space c"
    using set_sub_fenced_blocks [of p] by (auto simp: strip_Nil_iff)
  then have "strip (sub_fenced_blocks p) = []" by (simp add: strip_Nil_iff)
  then show ?thesis by (simp add: extract_explanation_def)
qed

lemma extract_explanation_eq:
  "extract_explanation p =
     (if 50 < length (strip (sub_fenced_blocks p))
      then ''# Refactoring Notes'' @ [nl, nl] @ strip (sub_fenced_blocks p) else [])"
  by (simp add: extract_explanation_def Let_def)

subsection \<open>The longest block\<close>

lemma max_key_len_snoc:
  "max_key_len b (bs @ [x]) =
     (if length (max_key_len b bs) < length x then x else max_key_len b bs)"
  by (induction bs arbitrary: b) auto

lemma max_key_len_first_max:
  "\<exists>i<length (b # bs). max_key_len b bs = (b # bs) ! i \<and>
      (\<forall>j<length (b # bs). length ((b # bs) ! j) \<le> length ((b # bs) ! i)) \<and>
      (\<forall>j<i. length ((b # bs) ! j) < length ((b # bs) ! i))"
proof (induction bs rule: rev_induct)
  case Nil
  show ?case by simp
next
  case (snoc x bs)
  then obtain i where i: "i < length (b # bs)" "max_key_len b bs = (b # bs) ! i"
      "\<forall>j<length (b # bs). length ((b # bs) ! j) \<le> length ((b # bs) ! i)"
      "\<forall>j<i. length ((b # bs) ! j) < length ((b # bs) ! i)"
    by blast
  let ?xs = "b # bs @ [x]"
  have pre: "\<And>j. j < length (b # bs) \<Longrightarrow> ?xs ! j = (b # bs) ! j"
    by (metis append_Cons nth_append)
  have lst: "?xs ! length (b # bs) = x"
    by (metis append_Cons nth_append_length)
  show ?case
  proof (cases "length (max_key_len b bs) < length x")
    case True
    have "max_key_len b (bs @ [x]) = ?xs ! length (b # bs)"
      using True lst by (simp add: max_key_len_snoc)
    moreover have "\<forall>j<length ?xs. length (?xs ! j) \<le> length (?xs ! length (b # bs))"
    proof (intro allI impI)
      fix j assume "j < length ?xs"
      then consider "j < length (b # bs)" | "j = length (b # bs)" by fastforce
      then show "length (?xs ! j) \<le> length (?xs ! length (b # bs))"
      proof cases
        case 1
        then show ?thesis using pre [OF 1] i True lst by (metis le_trans less_imp_le_nat)
      next
        case 2
        then show ?thesis by simp
      qed
    qed
    moreover have "\<forall>j<length (b # bs). length (?xs ! j) < length (?xs ! length (b # bs))"
    proof (intro allI impI)
      fix j assume j: "j < length (b # bs)"
      then show "length (?xs ! j) < length (?xs ! length (b # bs))"
        using pre [OF j] i True lst by (metis le_less_trans)
    qed
    ultimately show ?thesis
      by (intro exI [of _ "length (b # bs)"]) simp
  next
    case False
    have "max_key_len b (bs @ [x]) = ?xs ! i"
      using False i pre by (simp add: max_key_len_snoc)
    moreover have "\<forall>j<length ?xs. length (?xs ! j) \<le> length (?xs ! i)"
    proof (intro allI impI)
      fix j assume "j < length ?xs"
      then consider "j < length (b # bs)" | "j = length (b # bs)" by fastforce
      then show "length (?xs ! j) \<le> length (?xs ! i)"
      proof cases
        case 1
        then show ?thesis using pre [OF 1] pre [OF i(1)] i by metis
      next
        case 2
        then show ?thesis using lst pre [OF i(1)] i(2) False by (metis linorder_not_less)
      qed
    qed
    moreover have "\<forall>j<i. length (?xs ! j) < length (?xs ! i)"
    proof (intro allI impI)
      fix j assume j: "j < i"
      then have "j < length (b # bs)" using i(1) by linarith
      then show "length (?xs ! j) < length (?xs ! i)"
        using pre [of j] pre [OF i(1)] i(4) j by metis
    qed
    ultimately show ?thesis using i(1)
      by (intro exI [of _ i]) simp
  qed
qed

subsection \<open>The parsers on their two paths\<close>

lemma length_pairs_of_split:
  "length (pairs_of clean (tl (re_split_filename s))) = length (re_findall_filename s)"
  using pairs_of_split [of clean s, THEN arg_cong, of length] by simp

lemma get_split0: "get (re_split_filename s) 0 = Inr (hd (re_split_filename s))"
  using re_split_filename_nonempty [of s] by (cases "re_split_filename s") (auto simp: get_def)

lemma drop1_tl: "drop (Suc 0) xs = tl xs"
  by (cases xs) auto

lemma parse_multi_file_response_multi:
  assumes "re_findall_filename r \<noteq> []"
  shows "parse_multi_file_response r l =
     Inr ((if strip (hd (re_split_filename r)) \<noteq> []
           then [\<lparr>filename = ''README.md'', content = strip (hd (re_split_filename r)),
                  type = Documentation\<rparr>]
           else [])
          @ pairs_of clean_code_content (tl (re_split_filename r)))"
  using assms
  by (simp add: parse_multi_file_response_def Let_def get_split0 file_pairs_drop drop1_tl)

lemma parse_multi_file_response_single:
  assumes "re_findall_filename r = []"
  shows "parse_multi_file_response r l =
     Inr [\<lparr>filename = ''generated_script.'' @ (if l = ''python'' then ''py'' else ''ts''),
           content = clean_code_content r, type = Code\<rparr>]"
  using assms
  by (simp add: parse_multi_file_response_def Let_def)

lemma parse_refactored_response_multi:
  assumes "re_findall_filename r \<noteq> []"
  shows "parse_refactored_response r l =
     Inr ((if strip (hd (re_split_filename r)) \<noteq> [] \<and> extract_explanation (hd (re_split_filename r)) \<noteq> []
           then [\<lparr>filename = ''REFACTORING_NOTES.md'',
                  content = extract_explanation (hd (re_split_filename r)),
                  type = Documentation\<rparr>]
           else [])
          @ pairs_of (\<lambda>c. clean_and_validate_code c l) (tl (re_split_filename r)))"
  using assms
  by (simp add: parse_refactored_response_def Let_def get_split0 file_pairs_drop drop1_tl)

lemma parse_refactored_response_single:
  assumes "re_findall_filename r = []"
  shows "parse_refactored_response r l =
     Inr ((if fst (separate_explanation_and_code r) \<noteq> []
           then [\<lparr>filename = ''REFACTORING_NOTES.md'',
                  content = fst (separate_explanation_and_code r),
                  type = Documentation\<rparr>]
           else [])
          @ (if snd (separate_explanation_and_code r) \<noteq> []
             then [\<lparr>filename = ''refactored_code.'' @ (if l = ''python'' then ''py'' else ''ts''),
                  content = clean_and_validate_code (snd (separate_explanation_and_code r)) l,
                  type = Code\<rparr>]
           else []))"
  using assms
  by (simp add: parse_refactored_response_def Let_def split: prod.splits)

section \<open>Properties of the cleaners\<close>

lemma prefix_fence_iff: "prefix fence s \<longleftrightarrow> (\<exists>t. s = CHR 0x60 # CHR 0x60 # CHR 0x60 # t)"
  by (auto simp: fence_def prefix_def)

lemma sub_fence_hd:
  "sub_fence s = CHR 0x60 # t \<Longrightarrow> \<exists>s'. s = CHR 0x60 # s'"
  by (cases s) (auto simp: prefix_fence_iff split: if_splits)

lemma sub_fence_hd2:
  "sub_fence s = CHR 0x60 # CHR 0x60 # t \<Longrightarrow> \<exists>s'. s = CHR 0x60 # CHR 0x60 # s'"
proof (cases s)
  case Nil
  assume "sub_fence s = CHR 0x60 # CHR 0x60 # t"
  with Nil show ?thesis by simp
next
  case (Cons c cs)
  assume a: "sub_fence s = CHR 0x60 # CHR 0x60 # t"
  show ?thesis
  proof (cases "prefix fence (c # cs)")
    case True
    then show ?thesis using Cons by (auto simp: prefix_fence_iff)
  next
    case False
    with a Cons have "c = CHR 0x60" "sub_fence cs = CHR 0x60 # t" by auto
    with sub_fence_hd [of cs t] Cons show ?thesis by auto
  qed
qed

lemma sub_fence_no_prefix: "\<not> prefix fence (sub_fence s)"
proof (induction s rule: sub_fence.induct)
  case 1
  show ?case by (simp add: fence_def)
next
  case (2 c cs)
  show ?case
  proof (cases "prefix fence (c # cs)")
    case True
    with 2 show ?thesis by simp
  next
    case False
    show ?thesis
    proof
      assume "prefix fence (sub_fence (c # cs))"
      with False have p: "prefix fence (c # sub_fence cs)" by simp
      then obtain t where "c = CHR 0x60" "sub_fence cs = CHR 0x60 # CHR 0x60 # t"
        by (auto simp: prefix_fence_iff)
      with sub_fence_hd2 [of cs t] have "prefix fence (c # cs)"
        by (auto simp: prefix_fence_iff)
      with False show False by simp
    qed
  qed
qed

lemma sub_fence_no_fence: "\<not> has_fence (sub_fence s)"
proof (induction s rule: sub_fence.induct)
  case 1
  show ?case by simp
next
  case (2 c cs)
  show ?case
  proof (cases "prefix fence (c # cs)")
    case True
    with 2 show ?thesis by simp
  next
    case False
    have "\<not> prefix fence (sub_fence (c # cs))" by (rule sub_fence_no_prefix)
    with False have "\<not> prefix fence (c # sub_fence cs)" by simp
    with False 2 show ?thesis by simp
  qed
qed

lemma sub_fence_id: "\<not> has_fence s \<Longrightarrow> sub_fence s = s"
  by (induction s) auto

lemma sub_fence_tag_nl_id: "\<not> has_fence s \<Longrightarrow> sub_fence_tag_nl s = s"
  by (induction s) auto

lemma sub_fence_tag_optnl_id: "\<not> has_fence s \<Longrightarrow> sub_fence_tag_optnl s = s"
  by (induction s) auto

lemma has_fence_append_nl: "has_fence (u @ nl # v) \<longleftrightarrow> has_fence u \<or> has_fence v"
proof (induction u)
  case Nil
  show ?case by (simp add: prefix_fence_iff nl_def)
next
  case (Cons c u)
  have "prefix fence (c # u @ nl # v) \<longleftrightarrow> prefix fence (c # u)"
    by (cases u; cases "tl u") (auto simp: prefix_fence_iff nl_def)
  with Cons show ?case by auto
qed

lemma has_fence_appendI1: "has_fence u \<Longrightarrow> has_fence (u @ v)"
  by (induction u) (auto simp: prefix_fence_iff)

lemma has_fence_appendI2: "has_fence v \<Longrightarrow> has_fence (u @ v)"
  by (induction u) auto

lemma has_fence_join: "has_fence (join_nl ls) \<Longrightarrow> \<exists>l\<in>set ls. has_fence l"
  by (induction ls rule: join_nl.induct) (auto simp: has_fence_append_nl)

lemma split_nl_nonempty: "split_nl s \<noteq> []"
  by (induction s) (auto split: list.splits)

lemma split_nl_Cons: "\<exists>l ls. split_nl s = l # ls"
  using split_nl_nonempty [of s] by (cases "split_nl s") auto

lemma join_nl_Cons_Cons: "join_nl ((c # l) # ls) = c # join_nl (l # ls)"
  by (cases ls) auto

lemma join_nl_Nil_Cons: "ls \<noteq> [] \<Longrightarrow> join_nl ([] # ls) = nl # join_nl ls"
  by (cases ls) auto

lemma join_split_nl: "join_nl (split_nl s) = s"
proof (induction s)
  case Nil
  show ?case by simp
next
  case (Cons c cs)
  obtain l ls where l: "split_nl cs = l # ls" using split_nl_Cons by blast
  show ?case
  proof (cases "c = nl")
    case True
    with Cons show ?thesis by (simp add: join_nl_Nil_Cons split_nl_nonempty)
  next
    case False
    with Cons l show ?thesis by (simp add: join_nl_Cons_Cons)
  qed
qed

lemma split_nl_no_nl: "l \<in> set (split_nl s) \<Longrightarrow> nl \<notin> set l"
proof (induction s arbitrary: l)
  case Nil
  then show ?case by simp
next
  case (Cons c cs)
  obtain l' ls where l: "split_nl cs = l' # ls" using split_nl_Cons by blast
  with Cons show ?case by (auto split: if_splits)
qed

lemma split_nl_no_nl_line: "nl \<notin> set l \<Longrightarrow> split_nl l = [l]"
  by (induction l) auto

lemma split_nl_append_nl: "nl \<notin> set l \<Longrightarrow> split_nl (l @ nl # s) = l # split_nl s"
  by (induction l) auto

lemma split_join_nl: "ls \<noteq> [] \<Longrightarrow> \<forall>l\<in>set ls. nl \<notin> set l \<Longrightarrow> split_nl (join_nl ls) = ls"
  by (induction ls rule: join_nl.induct) (auto simp: split_nl_no_nl_line split_nl_append_nl)

lemma rstrip_Cons:
  "rstrip (c # s) = (if rstrip s = [] \<and> is_space c then [] else c # rstrip s)"
proof -
  have "dropWhile is_space (rev s @ [c]) =
      (if \<forall>x\<in>set (rev s). is_space x then dropWhile is_space [c] else dropWhile is_space (rev s) @ [c])"
    by (simp add: dropWhile_append)
  then show ?thesis
    by (auto simp: rstrip_def)
qed

lemma rstrip_Nil [simp]: "rstrip [] = []"
  by (simp add: rstrip_def)

lemma rstrip_prefix: "\<exists>w. s = rstrip s @ w \<and> (\<forall>c\<in>set w. is_space c)"
proof -
  have "rev s = takeWhile is_space (rev s) @ dropWhile is_space (rev s)" by simp
  then have "s = rev (dropWhile is_space (rev s)) @ rev (takeWhile is_space (rev s))"
    by (metis rev_append rev_rev_ident)
  moreover have "\<forall>c\<in>set (rev (takeWhile is_space (rev s))). is_space c"
    by (auto dest: set_takeWhileD)
  ultimately show ?thesis unfolding rstrip_def by blast
qed

lemma rstrip_id_iff: "rstrip s = s \<longleftrightarrow> (s = [] \<or> \<not> is_space (last s))"
proof (cases "s = []")
  case True
  then show ?thesis by simp
next
  case False
  then have "rev s \<noteq> []" by simp
  then obtain x xs where r: "rev s = x # xs" by (cases "rev s") auto
  then have lx: "last s = x" by (metis last_rev list.sel(1) rev_rev_ident)
  show ?thesis
  proof (cases "is_space x")
    case True
    then have "length (rstrip s) < length s"
      using r length_dropWhile_le [of is_space xs] by (simp add: rstrip_def)
    with True lx False show ?thesis by auto
  next
    case F: False
    then have "rstrip s = rev (rev s)" using r by (simp add: rstrip_def)
    then have "rstrip s = s" by simp
    with F lx show ?thesis by simp
  qed
qed

lemma rstrip_idem: "rstrip (rstrip s) = rstrip s"
proof (cases "rstrip s = []")
  case True
  then show ?thesis by simp
next
  case False
  then have "dropWhile is_space (rev s) \<noteq> []" by (simp add: rstrip_def)
  then have "\<not> is_space (hd (dropWhile is_space (rev s)))" by (rule hd_dropWhile)
  moreover have "last (rstrip s) = hd (dropWhile is_space (rev s))"
    using \<open>dropWhile is_space (rev s) \<noteq> []\<close> by (simp add: rstrip_def last_rev)
  ultimately show ?thesis by (simp add: rstrip_id_iff)
qed

lemma lstrip_id_iff: "lstrip s = s \<longleftrightarrow> (s = [] \<or> \<not> is_space (hd s))"
  by (cases s) (auto simp: lstrip_def dest: dropWhile_Cons_shorter)

lemma lstrip_hd: "lstrip s \<noteq> [] \<Longrightarrow> \<not> is_space (hd (lstrip s))"
  unfolding lstrip_def by (rule hd_dropWhile)

lemma strip_id_iff:
  "strip s = s \<longleftrightarrow> (s = [] \<or> (\<not> is_space (hd s) \<and> \<not> is_space (last s)))"
proof
  assume a: "strip s = s"
  show "s = [] \<or> (\<not> is_space (hd s) \<and> \<not> is_space (last s))"
  proof (cases "s = []")
    case True then show ?thesis by simp
  next
    case False
    obtain w where w: "lstrip s = rstrip (lstrip s) @ w" using rstrip_prefix by blast
    with a have "lstrip s = s @ w" by (simp add: strip_def)
    moreover have "length (lstrip s) \<le> length s" by (simp add: lstrip_def length_dropWhile_le)
    ultimately have ls: "lstrip s = s" by simp
    with a have "rstrip s = s" by (simp add: strip_def)
    with ls False show ?thesis by (simp add: rstrip_id_iff lstrip_id_iff)
  qed
next
  assume "s = [] \<or> (\<not> is_space (hd s) \<and> \<not> is_space (last s))"
  then have "lstrip s = s" "rstrip s = s" by (auto simp: rstrip_id_iff lstrip_id_iff)
  then show "strip s = s" by (simp add: strip_def)
qed

lemma strip_idem: "strip (strip s) = strip s"
proof (cases "strip s = []")
  case True
  then show ?thesis by (simp add: strip_def lstrip_def)
next
  case False
  let ?l = "lstrip s"
  from False have ne: "?l \<noteq> []" by (auto simp: strip_def)
  obtain w where w: "?l = rstrip ?l @ w" using rstrip_prefix by blast
  from False have "rstrip ?l \<noteq> []" by (simp add: strip_def)
  then have "hd (rstrip ?l) = hd ?l" using w by (metis hd_append2)
  then have "\<not> is_space (hd (strip s))" using lstrip_hd [OF ne] by (simp add: strip_def)
  moreover have "\<not> is_space (last (strip s))"
    using False rstrip_idem [of ?l] rstrip_id_iff [of "rstrip ?l"] by (simp add: strip_def)
  ultimately show ?thesis by (simp add: strip_id_iff)
qed

lemma rstripped_lines_Nil: "rstripped_lines []"
  by (simp add: rstripped_lines_def)

lemma rstripped_lines_tl: "rstripped_lines (c # w) \<Longrightarrow> rstripped_lines w"
proof -
  assume a: "rstripped_lines (c # w)"
  obtain l ls where l: "split_nl w = l # ls" using split_nl_Cons by blast
  show ?thesis
  proof (cases "c = nl")
    case True
    with a show ?thesis by (simp add: rstripped_lines_def)
  next
    case False
    with a l have r: "rstrip (c # l) = c # l" and ls: "list_all (\<lambda>l. rstrip l = l) ls"
      by (simp_all add: rstripped_lines_def)
    from r have "rstrip l = l" by (simp add: rstrip_Cons split: if_splits)
    with ls l show ?thesis by (simp add: rstripped_lines_def)
  qed
qed

lemma rstripped_lines_suffix: "rstripped_lines (u @ v) \<Longrightarrow> rstripped_lines v"
  by (induction u) (auto dest: rstripped_lines_tl)

lemma split_nl_first_empty: "split_nl s = [] # ls \<Longrightarrow> s = [] \<or> (\<exists>t. s = nl # t)"
proof (cases s)
  case Nil
  then show ?thesis by simp
next
  case (Cons c cs)
  assume a: "split_nl s = [] # ls"
  obtain l' ls' where "split_nl cs = l' # ls'" using split_nl_Cons by blast
  with a Cons show ?thesis by (auto split: if_splits)
qed

lemma rstripped_lines_rstrip: "rstripped_lines s \<Longrightarrow> rstripped_lines (rstrip s)"
proof (induction s)
  case Nil
  then show ?case by simp
next
  case (Cons c w)
  then have qw: "rstripped_lines (rstrip w)" by (auto dest: rstripped_lines_tl)
  show ?case
  proof (cases "rstrip w = [] \<and> is_space c")
    case True
    then show ?thesis by (simp add: rstrip_Cons rstripped_lines_Nil)
  next
    case False
    then have eq: "rstrip (c # w) = c # rstrip w" by (simp add: rstrip_Cons)
    obtain l' ls' where l': "split_nl (rstrip w) = l' # ls'" using split_nl_Cons by blast
    show ?thesis
    proof (cases "c = nl")
      case True
      with qw eq show ?thesis by (simp add: rstripped_lines_def)
    next
      case cnl: False
      from qw l' have rl': "rstrip l' = l'" and ls': "list_all (\<lambda>l. rstrip l = l) ls'"
        by (simp_all add: rstripped_lines_def)
      have "\<not> (l' = [] \<and> is_space c)"
      proof
        assume b: "l' = [] \<and> is_space c"
        with False have "rstrip w \<noteq> []" by simp
        with b l' split_nl_first_empty [of "rstrip w" ls'] obtain t where t: "rstrip w = nl # t"
          by auto
        obtain ww where "w = rstrip w @ ww" using rstrip_prefix by blast
        with t have "w = nl # (t @ ww)" by simp
        then have "split_nl (c # w) = [c] # split_nl (t @ ww)"
          using cnl by simp
        with Cons(2) have "rstrip [c] = [c]" by (simp add: rstripped_lines_def)
        with b show False by (simp add: rstrip_Cons)
      qed
      then have "rstrip (c # l') = c # l'" using rl' by (auto simp: rstrip_Cons)
      with ls' l' cnl eq show ?thesis by (simp add: rstripped_lines_def)
    qed
  qed
qed

lemma lstrip_suffix: "\<exists>u. s = u @ lstrip s"
  unfolding lstrip_def by (metis takeWhile_dropWhile_id)

lemma rstripped_lines_strip: "rstripped_lines s \<Longrightarrow> rstripped_lines (strip s)"
proof -
  assume a: "rstripped_lines s"
  obtain u where "s = u @ lstrip s" using lstrip_suffix by blast
  with a have "rstripped_lines (lstrip s)" by (metis rstripped_lines_suffix)
  then show ?thesis unfolding strip_def by (rule rstripped_lines_rstrip)
qed

lemma clean_code_content_eq:
  "clean_code_content x = trim_lines (sub_fence (sub_fence_tag_nl x))"
  by (simp add: clean_code_content_def trim_lines_def Let_def)

lemma set_rstrip: "set (rstrip s) \<subseteq> set s"
  using rstrip_prefix [of s] by (metis Un_upper1 set_append)

lemma has_fence_rstrip: "has_fence (rstrip s) \<Longrightarrow> has_fence s"
  using rstrip_prefix [of s] by (metis has_fence_appendI1)

lemma has_fence_strip: "has_fence (strip s) \<Longrightarrow> has_fence s"
proof -
  assume "has_fence (strip s)"
  then have "has_fence (lstrip s)" unfolding strip_def by (rule has_fence_rstrip)
  then show ?thesis using lstrip_suffix [of s] by (metis has_fence_appendI2)
qed

lemma has_fence_joinI: "l \<in> set ls \<Longrightarrow> has_fence l \<Longrightarrow> has_fence (join_nl ls)"
  by (induction ls rule: join_nl.induct) (auto simp: has_fence_append_nl)

lemma has_fence_lines: "has_fence s \<longleftrightarrow> (\<exists>l\<in>set (split_nl s). has_fence l)"
  using has_fence_join [of "split_nl s"] has_fence_joinI [of _ "split_nl s"]
  by (auto simp: join_split_nl)

lemma trim_lines_no_fence: "\<not> has_fence s \<Longrightarrow> \<not> has_fence (trim_lines s)"
proof
  assume nf: "\<not> has_fence s" and "has_fence (trim_lines s)"
  then have "has_fence (join_nl (map rstrip (split_nl s)))"
    unfolding trim_lines_def by (rule_tac has_fence_strip)
  then obtain l where "l \<in> set (split_nl s)" "has_fence (rstrip l)"
    using has_fence_join by fastforce
  then have "has_fence s" using has_fence_lines has_fence_rstrip by blast
  with nf show False by simp
qed

lemma trim_lines_idem: "trim_lines (trim_lines s) = trim_lines s"
proof -
  let ?L = "map rstrip (split_nl s)"
  let ?J = "join_nl ?L"
  have "?L \<noteq> []" by (simp add: split_nl_nonempty)
  moreover have "\<forall>l\<in>set ?L. nl \<notin> set l"
    using split_nl_no_nl set_rstrip by fastforce
  ultimately have "split_nl ?J = ?L" by (rule split_join_nl)
  then have "rstripped_lines ?J"
    by (simp add: rstripped_lines_def list_all_iff rstrip_idem)
  then have "rstripped_lines (trim_lines s)"
    unfolding trim_lines_def by (rule rstripped_lines_strip)
  then have "map rstrip (split_nl (trim_lines s)) = split_nl (trim_lines s)"
    by (simp add: rstripped_lines_def list_all_iff map_idI)
  then have "trim_lines (trim_lines s) = strip (trim_lines s)"
    by (simp add: trim_lines_def [of "trim_lines s"] join_split_nl)
  then show ?thesis by (simp add: trim_lines_def strip_idem)
qed

lemma clean_code_content_idem:
  "clean_code_content (clean_code_content x) = clean_code_content x"
proof -
  let ?y = "sub_fence (sub_fence_tag_nl x)"
  have "\<not> has_fence (trim_lines ?y)"
    by (rule trim_lines_no_fence) (rule sub_fence_no_fence)
  then have "sub_fence (sub_fence_tag_nl (trim_lines ?y)) = trim_lines ?y"
    by (simp add: sub_fence_tag_nl_id sub_fence_id)
  then show ?thesis by (simp add: clean_code_content_eq trim_lines_idem)
qed

lemma strip_Nil [simp]: "strip [] = []"
  by (simp add: strip_def lstrip_def)

lemma strip_rstrip: "strip (rstrip l) = [] \<longleftrightarrow> strip l = []"
  using rstrip_prefix [of l] set_rstrip [of l]
  by (auto simp: strip_Nil_iff) (metis Un_iff set_append)

lemma collapsed_mono: "collapsed n ls \<Longrightarrow> m \<le> n \<Longrightarrow> collapsed m ls"
  by (induction ls arbitrary: n m) (auto split: if_splits)

lemma collapsed_collapse_blank: "collapsed n (collapse_blank n ls)"
proof (induction ls arbitrary: n)
  case Nil
  show ?case by simp
next
  case (Cons l ls)
  show ?case
  proof (cases "strip l = []")
    case True
    show ?thesis
    proof (cases "n + 1 \<le> 2")
      case T: True
      with True Cons [of "n + 1"] show ?thesis by simp
    next
      case False
      with True have "collapse_blank n (l # ls) = collapse_blank (n + 1) ls" by simp
      moreover have "collapsed n (collapse_blank (n + 1) ls)"
        using Cons [of "n + 1"] by (rule collapsed_mono) simp
      ultimately show ?thesis by simp
    qed
  next
    case False
    then have "rstrip l \<noteq> []" using strip_rstrip [of l] by auto
    with False Cons [of 0] show ?thesis by (simp add: strip_rstrip rstrip_idem)
  qed
qed

lemma collapse_blank_id: "collapsed n ls \<Longrightarrow> collapse_blank n ls = ls"
  by (induction ls arbitrary: n) (auto split: if_splits)

lemma collapsed_butlast: "collapsed n ls \<Longrightarrow> collapsed n (butlast ls)"
  by (induction ls arbitrary: n) (auto split: if_splits)

lemma collapsed_pop: "collapsed n ls \<Longrightarrow> collapsed n (pop_trailing_blank ls)"
proof (induction ls rule: pop_trailing_blank.induct)
  case (1 ls)
  show ?case
  proof (cases "ls \<noteq> [] \<and> last ls = []")
    case True
    with 1 show ?thesis
      by (subst pop_trailing_blank.simps) (simp add: collapsed_butlast)
  next
    case False
    with 1 show ?thesis by (subst pop_trailing_blank.simps) auto
  qed
qed

lemma pop_trailing_blank_last:
  "pop_trailing_blank ls = [] \<or> last (pop_trailing_blank ls) \<noteq> []"
proof (induction ls rule: pop_trailing_blank.induct)
  case (1 ls)
  show ?case
  proof (cases "ls \<noteq> [] \<and> last ls = []")
    case True
    with 1 show ?thesis by (subst (1 2) pop_trailing_blank.simps) simp
  next
    case False
    then show ?thesis by (subst (1 2) pop_trailing_blank.simps) auto
  qed
qed

lemma pop_trailing_blank_idem:
  "pop_trailing_blank (pop_trailing_blank ls) = pop_trailing_blank ls"
  using pop_trailing_blank_last [of ls]
  by (subst pop_trailing_blank.simps) auto

lemma pop_trailing_blank_subset: "set (pop_trailing_blank ls) \<subseteq> set ls"
proof (induction ls rule: pop_trailing_blank.induct)
  case (1 ls)
  show ?case
  proof (cases "ls \<noteq> [] \<and> last ls = []")
    case True
    with 1 have "set (pop_trailing_blank (butlast ls)) \<subseteq> set (butlast ls)" by simp
    also have "\<dots> \<subseteq> set ls" by (meson in_set_butlastD subsetI)
    finally show ?thesis using True by (subst pop_trailing_blank.simps) simp
  next
    case False
    then show ?thesis by (subst pop_trailing_blank.simps) auto
  qed
qed

lemma collapse_blank_subset: "set (collapse_blank n ls) \<subseteq> insert [] (rstrip ` set ls)"
  by (induction ls arbitrary: n) auto

lemma collapsed_no_nl_run: "collapsed n ls \<Longrightarrow> n \<le> 2 \<Longrightarrow> max_blank_run n ls \<le> 2"
  by (induction ls arbitrary: n) (auto split: if_splits)

lemma clean_and_validate_code_eq:
  "clean_and_validate_code x l = tidy_lines (sub_fence (sub_fence_tag_optnl x))"
  by (simp add: clean_and_validate_code_def tidy_lines_def Let_def)

lemma tidy_lines_no_nl:
  "l \<in> set (pop_trailing_blank (collapse_blank 0 (split_nl s))) \<Longrightarrow> nl \<notin> set l"
proof -
  assume "l \<in> set (pop_trailing_blank (collapse_blank 0 (split_nl s)))"
  then have "l \<in> insert [] (rstrip ` set (split_nl s))"
    using pop_trailing_blank_subset collapse_blank_subset by blast
  then show ?thesis using split_nl_no_nl set_rstrip by fastforce
qed

lemma tidy_lines_split:
  "split_nl (tidy_lines s) =
     (if pop_trailing_blank (collapse_blank 0 (split_nl s)) = [] then [[]]
      else pop_trailing_blank (collapse_blank 0 (split_nl s)))"
  using tidy_lines_no_nl [of _ s] by (auto simp: tidy_lines_def split_join_nl)

lemma tidy_lines_no_fence: "\<not> has_fence s \<Longrightarrow> \<not> has_fence (tidy_lines s)"
proof
  assume nf: "\<not> has_fence s" and "has_fence (tidy_lines s)"
  then obtain l where l: "l \<in> set (pop_trailing_blank (collapse_blank 0 (split_nl s)))"
      "has_fence l"
    unfolding tidy_lines_def using has_fence_join by blast
  then have "l \<in> insert [] (rstrip ` set (split_nl s))"
    using pop_trailing_blank_subset collapse_blank_subset by blast
  with l(2) obtain l0 where "l0 \<in> set (split_nl s)" "has_fence (rstrip l0)" by auto
  then have "has_fence s" using has_fence_lines has_fence_rstrip by blast
  with nf show False by simp
qed

lemma tidy_lines_idem: "tidy_lines (tidy_lines s) = tidy_lines s"
proof -
  let ?L = "pop_trailing_blank (collapse_blank 0 (split_nl s))"
  show ?thesis
  proof (cases "?L = []")
    case True
    then have "tidy_lines s = []" by (simp add: tidy_lines_def)
    moreover have "tidy_lines [] = []"
      by (simp add: tidy_lines_def pop_trailing_blank.simps)
    ultimately show ?thesis by simp
  next
    case False
    have c: "collapsed 0 ?L" by (intro collapsed_pop collapsed_collapse_blank)
    from False have "split_nl (tidy_lines s) = ?L" by (simp add: tidy_lines_split)
    then have "tidy_lines (tidy_lines s) = join_nl (pop_trailing_blank (collapse_blank 0 ?L))"
      by (simp add: tidy_lines_def [of "tidy_lines s"])
    also have "\<dots> = join_nl (pop_trailing_blank ?L)"
      using c by (simp add: collapse_blank_id)
    also have "\<dots> = join_nl ?L" by (simp add: pop_trailing_blank_idem)
    finally show ?thesis by (simp add: tidy_lines_def)
  qed
qed

lemma tidy_lines_blank_run: "max_blank_run 0 (split_nl (tidy_lines s)) \<le> 2"
proof -
  let ?L = "pop_trailing_blank (collapse_blank 0 (split_nl s))"
  have "collapsed 0 ?L" by (intro collapsed_pop collapsed_collapse_blank)
  then have "max_blank_run 0 ?L \<le> 2" by (rule collapsed_no_nl_run) simp
  then show ?thesis by (simp add: tidy_lines_split)
qed

lemma clean_and_validate_code_idem:
  "clean_and_validate_code (clean_and_validate_code x l) l = clean_and_validate_code x l"
proof -
  let ?y = "sub_fence (sub_fence_tag_optnl x)"
  have "\<not> has_fence (tidy_lines ?y)"
    by (rule tidy_lines_no_fence) (rule sub_fence_no_fence)
  then have "sub_fence (sub_fence_tag_optnl (tidy_lines ?y)) = tidy_lines ?y"
    by (simp add: sub_fence_tag_optnl_id sub_fence_id)
  then show ?thesis by (simp add: clean_and_validate_code_eq tidy_lines_idem)
qed

section \<open>Properties of the analysis\<close>

lemma length_split_nl: "length (split_nl s) = count_list s nl + 1"
proof (induction s)
  case Nil
  show ?case by simp
next
  case (Cons c cs)
  obtain l ls where "split_nl cs = l # ls" using split_nl_Cons by blast
  with Cons show ?case by auto
qed

lemma visit_keeps:
  "lines_of_code (visit a n) = lines_of_code a"
  "complexity_indicators (visit a n) = complexity_indicators a"
  by (cases n; simp split: option.splits)+

lemma foldl_visit_keeps:
  "lines_of_code (foldl visit a ns) = lines_of_code a"
  "complexity_indicators (foldl visit a ns) = complexity_indicators a"
  by (induction ns arbitrary: a) (simp_all add: visit_keeps)

lemma add_indicator_simps:
  "lines_of_code (add_indicator f a) = lines_of_code a"
  "complexity_indicators (add_indicator f a) = complexity_indicators a @ [f]"
  "imports (add_indicator f a) = imports a"
  "functions (add_indicator f a) = functions a"
  "classes (add_indicator f a) = classes a"
  by (simp_all add: add_indicator_def)

lemma indicators_keeps:
  "lines_of_code (indicators code a) = lines_of_code a"
  "imports (indicators code a) = imports a"
  "functions (indicators code a) = functions a"
  "classes (indicators code a) = classes a"
  by (simp_all add: indicators_def Let_def add_indicator_simps)


lemma indicators_large:
  "''Large file (>500 lines)'' \<in> set (complexity_indicators (indicators code a)) \<longleftrightarrow>
     ''Large file (>500 lines)'' \<in> set (complexity_indicators a) \<or> 500 < lines_of_code a"
  by (simp add: indicators_def Let_def add_indicator_simps)

lemma analyze_code_structure_eq:
  "analyze_code_structure parse code lang =
     (let analysis0 = \<lparr>language = lang, lines_of_code = length (split_nl code),
                       complexity_indicators = [], imports = [], functions = [], classes = []\<rparr>
      in if lang = ''python'' then
           (case parse code of
              Inr nodes \<Rightarrow> Inr (indicators code (foldl visit analysis0 nodes))
            | Inl e \<Rightarrow>
                if exc_kind e = SyntaxError
                then Inr (indicators code (add_indicator ''Syntax errors present'' analysis0))
                else Inl e)
         else Inr (indicators code analysis0))"
  by (simp add: analyze_code_structure_def indicators_def Let_def split: sum.splits)


section \<open>Properties of the operations\<close>







lemma success_failure [simp]: "\<not> success (failure msg ts)"
  by (simp add: failure_def)




section \<open>The claims\<close>

lemmas eval_defs = two_files_def nl_def fence_def match_delim_def
  get_def strip_def lstrip_def rstrip_def is_space_def is_word_def clean_code_content_def
  clean_and_validate_code_def mk_code_def pop_trailing_blank.simps

lemma findall_nth_split:
  "k < length (re_findall_filename s) \<Longrightarrow>
   re_findall_filename s ! k = re_split_filename s ! (2 * k + 1)"
proof (induction s arbitrary: k rule: re_split_filename.induct)
  case 1
  then show ?case by simp
next
  case (2 c cs)
  show ?case
  proof (cases "match_delim (c # cs)")
    case None
    obtain p rest where pr: "re_split_filename cs = p # rest"
      using re_split_filename_Cons by blast
    from 2(1) [OF None, of k] 2(3) None pr show ?thesis by simp
  next
    case (Some a)
    obtain n r where a: "a = (n, r)" by (cases a)
    show ?thesis
    proof (cases k)
      case 0
      with Some a show ?thesis by simp
    next
      case (Suc k')
      with 2(3) Some a have "k' < length (re_findall_filename r)" by simp
      from 2(2) [OF Some a [symmetric] this] Some a Suc show ?thesis by simp
    qed
  qed
qed

text \<open>
  Claim C1. A response in which the scan finds \<open>N \<ge> 1\<close> delimiters
  (\<open>N = length (re_findall_filename r)\<close>) is parsed, in refactor mode and in generation mode,
  into at most one documentation record followed by exactly \<open>N\<close> code records; the \<open>k\<close>-th
  code record carries the name of the \<open>k\<close>-th delimiter and the cleaned text that follows
  that delimiter, so the code records are in the order of their delimiters. No exception is
  raised. (A response without any delimiter takes the single-file path, which is the subject
  of claim C3.)
\<close>

theorem code_records_follow_delimiters:
  assumes "re_findall_filename r \<noteq> []"
  shows "(\<exists>docs codes. parse_refactored_response r l = Inr (docs @ codes) \<and>
            length docs \<le> 1 \<and> (\<forall>d\<in>set docs. type d = Documentation) \<and>
            (\<forall>c\<in>set codes. type c = Code) \<and>
            length codes = length (re_findall_filename r) \<and>
            (\<forall>k<length codes.
               filename (codes ! k) = strip (re_findall_filename r ! k) \<and>
               re_findall_filename r ! k = re_split_filename r ! (2 * k + 1) \<and>
               content (codes ! k) =
                 clean_and_validate_code (strip (re_split_filename r ! (2 * k + 2))) l)) \<and>
         (\<exists>docs codes. parse_multi_file_response r l = Inr (docs @ codes) \<and>
            length docs \<le> 1 \<and> (\<forall>d\<in>set docs. type d = Documentation) \<and>
            (\<forall>c\<in>set codes. type c = Code) \<and>
            length codes = length (re_findall_filename r) \<and>
            (\<forall>k<length codes.
               filename (codes ! k) = strip (re_findall_filename r ! k) \<and>
               re_findall_filename r ! k = re_split_filename r ! (2 * k + 1) \<and>
               content (codes ! k) =
                 clean_code_content (strip (re_split_filename r ! (2 * k + 2)))))"
proof -
  let ?parts = "re_split_filename r"
  let ?names = "re_findall_filename r"
  have codes: "length (pairs_of clean (tl ?parts)) = length ?names \<and>
      (\<forall>c\<in>set (pairs_of clean (tl ?parts)). type c = Code) \<and>
      (\<forall>k<length (pairs_of clean (tl ?parts)).
         filename (pairs_of clean (tl ?parts) ! k) = strip (?names ! k) \<and>
         ?names ! k = ?parts ! (2 * k + 1) \<and>
         content (pairs_of clean (tl ?parts) ! k) = clean (strip (?parts ! (2 * k + 2))))"
    for clean
  proof (intro conjI allI impI ballI)
    show len: "length (pairs_of clean (tl ?parts)) = length ?names"
      by (rule length_pairs_of_split)
    show "type c = Code" if "c \<in> set (pairs_of clean (tl ?parts))" for c
      using that by (rule pairs_of_type)
    fix k assume k: "k < length (pairs_of clean (tl ?parts))"
    obtain p rest where pr: "?parts = p # rest"
      using re_split_filename_Cons by blast
    have nth: "pairs_of clean (tl ?parts) ! k =
        mk_code clean (?parts ! (2 * k + 1)) (?parts ! (2 * k + 2))"
      using pairs_of_nth [OF k] pr by simp
    show fn: "filename (pairs_of clean (tl ?parts) ! k) = strip (?names ! k)"
      using pairs_of_split [of clean r] k len
      by (metis length_map nth_map)
    show "content (pairs_of clean (tl ?parts) ! k) = clean (strip (?parts ! (2 * k + 2)))"
      using nth by (simp add: mk_code_def)
    show "?names ! k = ?parts ! (2 * k + 1)"
      using k len by (simp add: findall_nth_split)
  qed
  let ?d1 = "if strip (hd ?parts) \<noteq> [] \<and> extract_explanation (hd ?parts) \<noteq> []
       then [\<lparr>filename = ''REFACTORING_NOTES.md'', content = extract_explanation (hd ?parts),
              type = Documentation\<rparr>]
       else []"
  let ?d2 = "if strip (hd ?parts) \<noteq> []
       then [\<lparr>filename = ''README.md'', content = strip (hd ?parts), type = Documentation\<rparr>]
       else []"
  have "parse_refactored_response r l =
      Inr (?d1 @ pairs_of (\<lambda>c. clean_and_validate_code c l) (tl ?parts))"
    using assms by (rule parse_refactored_response_multi)
  moreover have "length ?d1 \<le> 1 \<and> (\<forall>d\<in>set ?d1. type d = Documentation)" by simp
  ultimately have A: "\<exists>docs codes. parse_refactored_response r l = Inr (docs @ codes) \<and>
            length docs \<le> 1 \<and> (\<forall>d\<in>set docs. type d = Documentation) \<and>
            (\<forall>c\<in>set codes. type c = Code) \<and>
            length codes = length (re_findall_filename r) \<and>
            (\<forall>k<length codes.
               filename (codes ! k) = strip (re_findall_filename r ! k) \<and>
               re_findall_filename r ! k = re_split_filename r ! (2 * k + 1) \<and>
               content (codes ! k) =
                 clean_and_validate_code (strip (re_split_filename r ! (2 * k + 2))) l)"
    using codes [of "\<lambda>c. clean_and_validate_code c l"] by blast
  have "parse_multi_file_response r l = Inr (?d2 @ pairs_of clean_code_content (tl ?parts))"
    using assms by (rule parse_multi_file_response_multi)
  moreover have "length ?d2 \<le> 1 \<and> (\<forall>d\<in>set ?d2. type d = Documentation)" by simp
  ultimately have B: "\<exists>docs codes. parse_multi_file_response r l = Inr (docs @ codes) \<and>
            length docs \<le> 1 \<and> (\<forall>d\<in>set docs. type d = Documentation) \<and>
            (\<forall>c\<in>set codes. type c = Code) \<and>
            length codes = length (re_findall_filename r) \<and>
            (\<forall>k<length codes.
               filename (codes ! k) = strip (re_findall_filename r ! k) \<and>
               re_findall_filename r ! k = re_split_filename r ! (2 * k + 1) \<and>
               content (codes ! k) =
                 clean_code_content (strip (re_split_filename r ! (2 * k + 2))))"
    using codes [of clean_code_content] by blast
  from A B show ?thesis by (rule conjI)
qed

lemma two_files_names: "re_findall_filename two_files = [''a.py'', ''b.py'']"
  by (simp add: eval_defs)

theorem code_records_follow_delimiters_witness:
  "re_findall_filename two_files \<noteq> [] \<and>
   (\<exists>docs codes. parse_multi_file_response two_files ''python'' = Inr (docs @ codes) \<and>
      length docs \<le> 1 \<and> length codes = 2 \<and>
      filename (codes ! 0) = ''a.py'' \<and> filename (codes ! 1) = ''b.py'')"
proof -
  have h: "re_findall_filename two_files \<noteq> []" by (simp add: two_files_names)
  from code_records_follow_delimiters [OF h, of "''python''"]
  obtain docs codes where c: "parse_multi_file_response two_files ''python'' = Inr (docs @ codes)"
      "length docs \<le> 1" "length codes = length (re_findall_filename two_files)"
      "\<forall>k<length codes. filename (codes ! k) = strip (re_findall_filename two_files ! k) \<and>
               re_findall_filename two_files ! k = re_split_filename two_files ! (2 * k + 1) \<and>
               content (codes ! k) =
                 clean_code_content (strip (re_split_filename two_files ! (2 * k + 2)))"
    by blast
  from c(3) have l2: "length codes = 2" by (simp add: two_files_names)
  from c(4) l2 have "filename (codes ! 0) = strip (re_findall_filename two_files ! 0)"
    "filename (codes ! 1) = strip (re_findall_filename two_files ! 1)" by auto
  then have "filename (codes ! 0) = ''a.py''" "filename (codes ! 1) = ''b.py''"
    by (simp_all add: two_files_names strip_def lstrip_def rstrip_def is_space_def)
  with h c(1,2) l2 show ?thesis by blast
qed

lemma clean_code_content_Nil: "clean_code_content [] = []"
  by (simp add: clean_code_content_def strip_def lstrip_def rstrip_def)

text \<open>
  Claim C10. For every input string the generation-mode parser returns, without raising, a
  list with at least one record; when the scan finds no delimiter (the empty string and a
  text without fences included) the list is exactly one code record, named
  \<open>generated_script.py\<close> for python and \<open>generated_script.ts\<close> otherwise, whose content is
  the cleaned whole response.
\<close>

theorem generation_parser_never_empty:
  "(\<exists>f fs. parse_multi_file_response r l = Inr (f # fs)) \<and>
   (re_findall_filename r = [] \<longrightarrow>
      parse_multi_file_response r l =
        Inr [\<lparr>filename = ''generated_script.'' @ (if l = ''python'' then ''py'' else ''ts''),
              content = clean_code_content r, type = Code\<rparr>])"
proof (cases "re_findall_filename r = []")
  case True
  then show ?thesis by (simp add: parse_multi_file_response_single)
next
  case False
  then have "pairs_of clean_code_content (tl (re_split_filename r)) \<noteq> []"
    using length_pairs_of_split [of clean_code_content r] by auto
  then obtain f fs where "pairs_of clean_code_content (tl (re_split_filename r)) = f # fs"
    by (auto simp: neq_Nil_conv)
  then have "\<exists>f fs. parse_multi_file_response r l = Inr (f # fs)"
    using False by (simp add: parse_multi_file_response_multi)
  with False show ?thesis by blast
qed

theorem generation_parser_never_empty_witness:
  "re_findall_filename [] = [] \<and>
   parse_multi_file_response [] ''typescript'' =
     Inr [\<lparr>filename = ''generated_script.ts'', content = [], type = Code\<rparr>]"
  using generation_parser_never_empty [of "[]" "''typescript''"]
  by (simp add: clean_code_content_Nil)

text \<open>
  Claim C2. The code does not do what the claim says. The guard \<open>i + 1 < len(parts)\<close> of the
  loop drops a filename that has no element behind it in \<open>parts\<close>: for the two parts
  \<open>['', 'a.py']\<close> the loop returns no record. But \<open>re.split\<close> always returns a last segment,
  empty when nothing follows the last delimiter, so the guard never sees that case: the
  response that is just one delimiter naming \<open>a.py\<close> is split into \<open>['', 'a.py', '']\<close>, and both
  parsers emit a code record for \<open>a.py\<close>, with empty content. Neither parser raises.
\<close>

theorem dangling_filename_is_emitted:
  "re_split_filename dangling = [[], ''a.py'', []] \<and>
   file_pairs clean_code_content [[], ''a.py''] 1 = Inr [] \<and>
   parse_multi_file_response dangling ''python'' =
     Inr [\<lparr>filename = ''a.py'', content = [], type = Code\<rparr>] \<and>
   parse_refactored_response dangling ''python'' =
     Inr [\<lparr>filename = ''a.py'', content = [], type = Code\<rparr>]"
  by code_simp

text \<open>
  Claim C3, as stated, fails in refactor mode: the empty response has no delimiter and is
  parsed into the empty list, and a response whose only fenced block is empty is parsed into
  a single documentation record, with no code record.
\<close>

theorem single_file_counterexample:
  "re_findall_filename [] = [] \<and> parse_refactored_response [] ''python'' = Inr [] \<and>
   re_findall_filename empty_block_notes = [] \<and>
   parse_refactored_response empty_block_notes ''python'' =
     Inr [\<lparr>filename = ''REFACTORING_NOTES.md'', content = ''notes'', type = Documentation\<rparr>]"
  by code_simp

lemma blank_no_blocks: "\<forall>c\<in>set s. is_space c \<Longrightarrow> re_findall_code_blocks s = []"
proof (induction s)
  case Nil
  show ?case by simp
next
  case (Cons c cs)
  then have "is_space c" by simp
  then have "c \<noteq> CHR 0x60" by (auto simp: is_space_def)
  then have "\<not> prefix fence (c # cs)" by (simp add: fence_def)
  with Cons show ?case by simp
qed

text \<open>
  Claim C3, amended. For a response without any delimiter, generation mode returns exactly
  one code record. Refactor mode returns at most two records: at most one documentation
  record, present exactly when the explanation is not empty, followed by at most one code
  record, present exactly when the code payload is not empty after trimming; for a response
  of whitespace only it returns the empty list. Neither parser raises.
\<close>

theorem single_file_records:
  assumes "re_findall_filename r = []"
  shows "parse_multi_file_response r l =
           Inr [\<lparr>filename = ''generated_script.'' @ (if l = ''python'' then ''py'' else ''ts''),
                 content = clean_code_content r, type = Code\<rparr>] \<and>
         (\<exists>docs codes. parse_refactored_response r l = Inr (docs @ codes) \<and>
            length docs \<le> 1 \<and> length codes \<le> 1 \<and>
            (\<forall>d\<in>set docs. type d = Documentation) \<and> (\<forall>c\<in>set codes. type c = Code) \<and>
            (docs = [] \<longleftrightarrow> fst (separate_explanation_and_code r) = []) \<and>
            (codes = [] \<longleftrightarrow> snd (separate_explanation_and_code r) = [])) \<and>
         (strip r = [] \<longrightarrow> parse_refactored_response r l = Inr [])"
proof (intro conjI impI)
  show "parse_multi_file_response r l =
           Inr [\<lparr>filename = ''generated_script.'' @ (if l = ''python'' then ''py'' else ''ts''),
                 content = clean_code_content r, type = Code\<rparr>]"
    using assms by (rule parse_multi_file_response_single)
  let ?d = "if fst (separate_explanation_and_code r) \<noteq> []
           then [\<lparr>filename = ''REFACTORING_NOTES.md'',
                  content = fst (separate_explanation_and_code r),
                  type = Documentation\<rparr>]
           else []"
  let ?c = "if snd (separate_explanation_and_code r) \<noteq> []
             then [\<lparr>filename = ''refactored_code.'' @ (if l = ''python'' then ''py'' else ''ts''),
                  content = clean_and_validate_code (snd (separate_explanation_and_code r)) l,
                  type = Code\<rparr>]
           else []"
  have eq: "parse_refactored_response r l = Inr (?d @ ?c)"
    using assms by (rule parse_refactored_response_single)
  have "length ?d \<le> 1 \<and> length ?c \<le> 1 \<and>
            (\<forall>d\<in>set ?d. type d = Documentation) \<and> (\<forall>c\<in>set ?c. type c = Code) \<and>
            (?d = [] \<longleftrightarrow> fst (separate_explanation_and_code r) = []) \<and>
            (?c = [] \<longleftrightarrow> snd (separate_explanation_and_code r) = [])"
    by simp
  with eq show "\<exists>docs codes. parse_refactored_response r l = Inr (docs @ codes) \<and>
            length docs \<le> 1 \<and> length codes \<le> 1 \<and>
            (\<forall>d\<in>set docs. type d = Documentation) \<and> (\<forall>c\<in>set codes. type c = Code) \<and>
            (docs = [] \<longleftrightarrow> fst (separate_explanation_and_code r) = []) \<and>
            (codes = [] \<longleftrightarrow> snd (separate_explanation_and_code r) = [])"
    by blast
  assume blank: "strip r = []"
  then have "re_findall_code_blocks r = []"
    by (simp add: strip_Nil_iff blank_no_blocks)
  then have "separate_explanation_and_code r = ([], [])"
    using blank by (simp add: separate_explanation_and_code_def)
  with eq show "parse_refactored_response r l = Inr []" by simp
qed

theorem single_file_records_witness:
  "re_findall_filename '' '' = [] \<and> strip '' '' = [] \<and>
   parse_multi_file_response '' '' ''python'' =
     Inr [\<lparr>filename = ''generated_script.py'', content = [], type = Code\<rparr>] \<and>
   parse_refactored_response '' '' ''python'' = Inr []"
proof -
  have h: "re_findall_filename '' '' = []" by code_simp
  have b: "strip '' '' = []" by code_simp
  have c: "clean_code_content '' '' = []" by code_simp
  from single_file_records [OF h, of "''python''"] h b c show ?thesis by simp
qed

text \<open>
  Claim C5, as stated, fails. Generation mode emits \<open>README.md\<close> for a leading segment of two
  characters: it has no threshold and strips no fenced block. Refactor mode counts the length
  of the trimmed text, inner whitespace included: a leading segment with two non-whitespace
  characters and 49 blanks between them gets its \<open>REFACTORING_NOTES.md\<close>.
\<close>

theorem leading_documentation_counterexample:
  "parse_multi_file_response short_notes ''python'' =
     Inr [\<lparr>filename = ''README.md'', content = ''hi'', type = Documentation\<rparr>,
          \<lparr>filename = ''a.py'', content = ''x'', type = Code\<rparr>] \<and>
   non_space_count (hd (re_split_filename spaced_notes)) = 2 \<and>
   parse_refactored_response spaced_notes ''python'' =
     Inr [\<lparr>filename = ''REFACTORING_NOTES.md'',
           content = ''# Refactoring Notes'' @ [nl, nl] @ ''a'' @ replicate 49 (CHR '' '') @ ''b'',
           type = Documentation\<rparr>,
          \<lparr>filename = ''a.py'', content = ''x'', type = Code\<rparr>]"
  by code_simp

text \<open>
  Claim C5, amended. On the multi-file path, refactor mode emits \<open>REFACTORING_NOTES.md\<close> if and
  only if the leading segment, with its fenced blocks removed and then trimmed at both ends,
  is longer than 50 characters (whitespace inside it counted); the content is that text under
  the heading \<open># Refactoring Notes\<close> and an empty line. Generation mode emits \<open>README.md\<close> if
  and only if the leading segment is not all whitespace, with the trimmed segment as content.
  In both modes only code records follow.
\<close>

theorem leading_documentation:
  assumes "re_findall_filename r \<noteq> []"
  shows "(\<exists>codes. (\<forall>c\<in>set codes. type c = Code) \<and>
            parse_refactored_response r l =
              Inr ((if 50 < length (strip (sub_fenced_blocks (hd (re_split_filename r))))
                    then [\<lparr>filename = ''REFACTORING_NOTES.md'',
                           content = ''# Refactoring Notes'' @ [nl, nl] @
                             strip (sub_fenced_blocks (hd (re_split_filename r))),
                           type = Documentation\<rparr>]
                    else []) @ codes)) \<and>
         (\<exists>codes. (\<forall>c\<in>set codes. type c = Code) \<and>
            parse_multi_file_response r l =
              Inr ((if strip (hd (re_split_filename r)) \<noteq> []
                    then [\<lparr>filename = ''README.md'', content = strip (hd (re_split_filename r)),
                           type = Documentation\<rparr>]
                    else []) @ codes))"
proof (intro conjI)
  let ?p0 = "hd (re_split_filename r)"
  let ?e = "strip (sub_fenced_blocks ?p0)"
  have guard: "(strip ?p0 \<noteq> [] \<and> extract_explanation ?p0 \<noteq> []) \<longleftrightarrow> 50 < length ?e"
  proof
    assume "strip ?p0 \<noteq> [] \<and> extract_explanation ?p0 \<noteq> []"
    then show "50 < length ?e" by (simp add: extract_explanation_eq split: if_splits)
  next
    assume l: "50 < length ?e"
    then have "extract_explanation ?p0 \<noteq> []" by (simp add: extract_explanation_eq)
    then show "strip ?p0 \<noteq> [] \<and> extract_explanation ?p0 \<noteq> []"
      using extract_explanation_blank [of ?p0] by blast
  qed
  have "parse_refactored_response r l =
          Inr ((if 50 < length ?e
                then [\<lparr>filename = ''REFACTORING_NOTES.md'',
                       content = ''# Refactoring Notes'' @ [nl, nl] @ ?e, type = Documentation\<rparr>]
                else []) @ pairs_of (\<lambda>c. clean_and_validate_code c l) (tl (re_split_filename r)))"
    unfolding parse_refactored_response_multi [OF assms] guard
    by (simp add: extract_explanation_eq)
  then show "\<exists>codes. (\<forall>c\<in>set codes. type c = Code) \<and>
            parse_refactored_response r l =
              Inr ((if 50 < length ?e
                    then [\<lparr>filename = ''REFACTORING_NOTES.md'',
                           content = ''# Refactoring Notes'' @ [nl, nl] @ ?e,
                           type = Documentation\<rparr>]
                    else []) @ codes)"
    using pairs_of_type by blast
  show "\<exists>codes. (\<forall>c\<in>set codes. type c = Code) \<and>
            parse_multi_file_response r l =
              Inr ((if strip ?p0 \<noteq> []
                    then [\<lparr>filename = ''README.md'', content = strip ?p0,
                           type = Documentation\<rparr>]
                    else []) @ codes)"
    using parse_multi_file_response_multi [OF assms, of l] pairs_of_type by blast
qed

theorem leading_documentation_witness:
  "re_findall_filename spaced_notes \<noteq> [] \<and>
   strip (sub_fenced_blocks (hd (re_split_filename spaced_notes))) =
     ''a'' @ replicate 49 (CHR '' '') @ ''b'' \<and>
   (\<exists>codes. parse_refactored_response spaced_notes ''python'' =
      Inr (\<lparr>filename = ''REFACTORING_NOTES.md'',
             content = ''# Refactoring Notes'' @ [nl, nl] @ ''a'' @ replicate 49 (CHR '' '') @ ''b'',
             type = Documentation\<rparr> # codes)) \<and>
   (\<exists>codes. parse_multi_file_response spaced_notes ''python'' =
      Inr (\<lparr>filename = ''README.md'', content = ''a'' @ replicate 49 (CHR '' '') @ ''b'',
             type = Documentation\<rparr> # codes))"
proof -
  have h: "re_findall_filename spaced_notes \<noteq> []" by code_simp
  have e: "strip (sub_fenced_blocks (hd (re_split_filename spaced_notes))) =
      ''a'' @ replicate 49 (CHR '' '') @ ''b''" by code_simp
  have p: "strip (hd (re_split_filename spaced_notes)) = ''a'' @ replicate 49 (CHR '' '') @ ''b''"
    by code_simp
  have l: "50 < length (''a'' @ replicate 49 (CHR '' '') @ ''b'')" by simp
  have n: "''a'' @ replicate 49 (CHR '' '') @ ''b'' \<noteq> []" by simp
  from leading_documentation [OF h, of "''python''"] show ?thesis
    unfolding e p using h l n by auto
qed

text \<open>
  Claim C6. When the response has at least one fenced block (a match of the pattern of
  \<open>separate_explanation_and_code\<close>), the code payload is the trimmed text of a block that is
  at least as long as every block and strictly longer than every block before it: a block of
  maximal length, the first one among those of that length.
\<close>

theorem longest_block_first_wins:
  assumes "re_findall_code_blocks r \<noteq> []"
  shows "\<exists>i<length (re_findall_code_blocks r).
           snd (separate_explanation_and_code r) = strip (re_findall_code_blocks r ! i) \<and>
           (\<forall>j<length (re_findall_code_blocks r).
              length (re_findall_code_blocks r ! j) \<le> length (re_findall_code_blocks r ! i)) \<and>
           (\<forall>j<i. length (re_findall_code_blocks r ! j) < length (re_findall_code_blocks r ! i))"
proof -
  from assms obtain b bs where bs: "re_findall_code_blocks r = b # bs"
    by (auto simp: neq_Nil_conv)
  then have "snd (separate_explanation_and_code r) = strip (max_key_len b bs)"
    by (simp add: separate_explanation_and_code_def)
  with max_key_len_first_max [of b bs] bs show ?thesis by auto
qed

theorem longest_block_first_wins_witness:
  "re_findall_code_blocks tied_blocks \<noteq> [] \<and>
   re_findall_code_blocks tied_blocks = [''ab'', ''cd''] \<and>
   snd (separate_explanation_and_code tied_blocks) = ''ab''"
proof -
  have b: "re_findall_code_blocks tied_blocks = [''ab'', ''cd'']" by code_simp
  then have h: "re_findall_code_blocks tied_blocks \<noteq> []" by simp
  have "\<exists>i<length [''ab'', ''cd''].
           snd (separate_explanation_and_code tied_blocks) = strip ([''ab'', ''cd''] ! i) \<and>
           (\<forall>j<length [''ab'', ''cd''].
              length ([''ab'', ''cd''] ! j) \<le> length ([''ab'', ''cd''] ! i)) \<and>
           (\<forall>j<i. length ([''ab'', ''cd''] ! j) < length ([''ab'', ''cd''] ! i))"
    using longest_block_first_wins [OF h] unfolding b .
  then obtain i where
    i: "i < length [''ab'', ''cd'']"
      "snd (separate_explanation_and_code tied_blocks) = strip ([''ab'', ''cd''] ! i)"
      "\<forall>j<i. length ([''ab'', ''cd''] ! j) < length ([''ab'', ''cd''] ! i)"
    by blast
  have "i = 0"
  proof (rule ccontr)
    assume "i \<noteq> 0"
    with i(1) have "i = 1" by simp
    with i(3) show False by auto
  qed
  moreover have "strip ''ab'' = ''ab''" by code_simp
  ultimately show ?thesis using i(2) b by simp
qed

text \<open>
  Claim C4, as stated, fails for \<open>clean_code_content\<close>: it removes fence markers, trims the
  end of every line and trims the whole text, but it does not collapse blank lines. A text
  with three blank lines between two letters is returned as it is.
\<close>

theorem blank_runs_counterexample:
  "clean_code_content four_newlines = ''a'' @ [nl, nl, nl, nl] @ ''b'' \<and>
   max_blank_run 0 (split_nl (clean_code_content four_newlines)) = 3"
  by code_simp

text \<open>
  Claim C4, amended. Both cleaners are idempotent, and the output of
  \<open>clean_and_validate_code\<close> never has more than two consecutive blank lines (the argument
  \<open>language\<close> plays no part).
\<close>

theorem cleaners_idempotent:
  "clean_code_content (clean_code_content x) = clean_code_content x \<and>
   clean_and_validate_code (clean_and_validate_code x l) l' = clean_and_validate_code x l \<and>
   max_blank_run 0 (split_nl (clean_and_validate_code x l)) \<le> 2"
proof (intro conjI)
  show "clean_code_content (clean_code_content x) = clean_code_content x"
    by (rule clean_code_content_idem)
  have "clean_and_validate_code (clean_and_validate_code x l) l' =
      clean_and_validate_code (clean_and_validate_code x l) l"
    by (simp add: clean_and_validate_code_eq)
  then show "clean_and_validate_code (clean_and_validate_code x l) l' =
      clean_and_validate_code x l"
    by (simp add: clean_and_validate_code_idem)
  show "max_blank_run 0 (split_nl (clean_and_validate_code x l)) \<le> 2"
    unfolding clean_and_validate_code_eq by (rule tidy_lines_blank_run)
qed

theorem cleaners_idempotent_witness:
  "clean_and_validate_code fenced_sample ''python'' = ''x = 1'' @ [nl, nl, nl] @ ''y'' \<and>
   clean_and_validate_code (''x = 1'' @ [nl, nl, nl] @ ''y'') ''python'' =
     ''x = 1'' @ [nl, nl, nl] @ ''y'' \<and>
   clean_code_content fenced_sample = ''x = 1'' @ [nl, nl, nl, nl, nl] @ ''y'' \<and>
   clean_code_content (''x = 1'' @ [nl, nl, nl, nl, nl] @ ''y'') =
     ''x = 1'' @ [nl, nl, nl, nl, nl] @ ''y'' \<and>
   max_blank_run 0 (split_nl (''x = 1'' @ [nl, nl, nl] @ ''y'')) \<le> 2"
proof -
  have a: "clean_and_validate_code fenced_sample ''python'' = ''x = 1'' @ [nl, nl, nl] @ ''y''"
    by code_simp
  have b: "clean_code_content fenced_sample = ''x = 1'' @ [nl, nl, nl, nl, nl] @ ''y''"
    by code_simp
  from cleaners_idempotent [of fenced_sample "''python''" "''python''"] show ?thesis
    unfolding a b using a b by simp
qed

text \<open>
  Claim C9. Whenever the analysis returns, \<open>lines_of_code\<close> is the number of newline
  characters of the source plus one (so 1 for the empty text), and the large-file indicator
  is present if and only if \<open>lines_of_code\<close> exceeds 500. The analysis returns for every
  source and language, unless the language is python and the parser raises an exception
  that is not a \<open>SyntaxError\<close>.
\<close>

theorem line_count_and_large_file_flag:
  "(case analyze_code_structure parse code lang of
      Inr a \<Rightarrow>
        lines_of_code a = count_list code nl + 1 \<and>
        (''Large file (>500 lines)'' \<in> set (complexity_indicators a) \<longleftrightarrow>
           500 < lines_of_code a)
    | Inl e \<Rightarrow> lang = ''python'' \<and> parse code = Inl e \<and> exc_kind e \<noteq> SyntaxError)"
  by (simp add: analyze_code_structure_eq Let_def indicators_keeps indicators_large
      foldl_visit_keeps add_indicator_simps length_split_nl split: sum.splits)

theorem line_count_and_large_file_flag_witness:
  "(\<exists>a. analyze_code_structure no_nodes_parser (replicate 500 nl) ''python'' = Inr a \<and>
        lines_of_code a = 501 \<and>
        ''Large file (>500 lines)'' \<in> set (complexity_indicators a)) \<and>
   (\<exists>a. analyze_code_structure no_nodes_parser (replicate 499 nl) ''python'' = Inr a \<and>
        lines_of_code a = 500 \<and>
        ''Large file (>500 lines)'' \<notin> set (complexity_indicators a)) \<and>
   (\<exists>a. analyze_code_structure no_nodes_parser [] ''typescript'' = Inr a \<and>
        lines_of_code a = 1)"
proof -
  have r: "\<exists>a. analyze_code_structure no_nodes_parser code lang = Inr a" for code lang
    by (simp add: analyze_code_structure_eq Let_def no_nodes_parser_def)
  have c: "count_list (replicate n nl) nl = n" for n
    by (induction n) simp_all
  from r obtain a1 where
    a1: "analyze_code_structure no_nodes_parser (replicate 500 nl) ''python'' = Inr a1" by blast
  from r obtain a2 where
    a2: "analyze_code_structure no_nodes_parser (replicate 499 nl) ''python'' = Inr a2" by blast
  from r obtain a3 where
    a3: "analyze_code_structure no_nodes_parser [] ''typescript'' = Inr a3" by blast
  from line_count_and_large_file_flag [where parse = no_nodes_parser and code = "replicate 500 nl" and lang = "''python''"]
  have "lines_of_code a1 = 501 \<and> ''Large file (>500 lines)'' \<in> set (complexity_indicators a1)"
    by (simp add: a1 c)
  moreover
  from line_count_and_large_file_flag [where parse = no_nodes_parser and code = "replicate 499 nl" and lang = "''python''"]
  have "lines_of_code a2 = 500 \<and> ''Large file (>500 lines)'' \<notin> set (complexity_indicators a2)"
    by (simp add: a2 c)
  moreover
  from line_count_and_large_file_flag [where parse = no_nodes_parser and code = "[]" and lang = "''typescript''"]
  have "lines_of_code a3 = 1" by (simp add: a3)
  ultimately show ?thesis using a1 a2 a3 by blast
qed







end
